theory Spec2Isabelle
  imports Complex_Main
begin

section \<open>Hierarchical kidney-exchange optimisation (kep\_h.py)\<close>

text \<open>
  A shallow embedding of \<^verbatim>\<open>PoolOptimiser\<close> of \<^verbatim>\<open>src/kep_h/kep_h.py\<close>. The Gurobi
  solver is outside the repository: \<^verbatim>\<open>model.optimize()\<close> is a parameter of the
  development (a function from the model to a status, an objective value and the values
  of the variables). Objective values and variable values are floats in the source; they
  are exact rationals here.
\<close>

subsection \<open>The solver's model object\<close>

type_synonym var = nat
  \<comment> \<open>a Gurobi \<^verbatim>\<open>Var\<close>: its column, in the order of the \<^verbatim>\<open>addVar\<close> calls\<close>

datatype var_name = chain_name int | cycle_name int | altruist_name int
  \<comment> \<open>\<^verbatim>\<open>'chain' + str(index)\<close>, \<^verbatim>\<open>'cycle' + str(index)\<close>, \<^verbatim>\<open>'altruist' + str(nhs_id)\<close>\<close>

type_synonym linexpr = "(var \<times> rat) list"
  \<comment> \<open>a \<^verbatim>\<open>LinExpr\<close>: the terms \<^verbatim>\<open>var * coefficient\<close> of a \<^verbatim>\<open>quicksum\<close>\<close>

datatype rel = LE | GE | EQ

record constr =
  lhs :: linexpr
  rel :: rel
  rhs :: rat

datatype grb_sense = MAXIMIZE | MINIMIZE

datatype status =
  LOADED | OPTIMAL | INFEASIBLE | INF_OR_UNBD | UNBOUNDED | CUTOFF | ITERATION_LIMIT
  | NODE_LIMIT | TIME_LIMIT | SOLUTION_LIMIT | INTERRUPTED | NUMERIC | SUBOPTIMAL

record grb_model =
  vars :: "var_name list"
  constrs :: "constr list"
  objective :: linexpr
  modelSense :: grb_sense
  status :: status
  objVal :: rat
  X :: "rat list"

type_synonym solver = "grb_model \<Rightarrow> status \<times> rat \<times> rat list"

definition Model :: grb_model where
  "Model = \<lparr>vars = [], constrs = [], objective = [], modelSense = MINIMIZE,
     status = LOADED, objVal = 0, X = []\<rparr>"

definition addVar :: "var_name \<Rightarrow> grb_model \<Rightarrow> var \<times> grb_model" where
  "addVar nm m = (length (vars m), m\<lparr>vars := vars m @ [nm]\<rparr>)"

definition addConstr :: "constr \<Rightarrow> grb_model \<Rightarrow> grb_model" where
  "addConstr c m = m\<lparr>constrs := constrs m @ [c]\<rparr>"

definition quicksum :: "var list \<Rightarrow> linexpr" where
  "quicksum vs = map (\<lambda>v. (v, 1)) vs"

definition optimize :: "solver \<Rightarrow> grb_model \<Rightarrow> grb_model" where
  "optimize S m = (case S m of (st, v, x) \<Rightarrow> m\<lparr>status := st, objVal := v, X := x\<rparr>)"

subsection \<open>What a solution of a model is\<close>

definition eval :: "rat list \<Rightarrow> linexpr \<Rightarrow> rat" where
  "eval x e = sum_list (map (\<lambda>(v, c). c * x ! v) e)"

definition holds :: "rat list \<Rightarrow> constr \<Rightarrow> bool" where
  "holds x c =
     (case rel c of
        LE \<Rightarrow> eval x (lhs c) \<le> rhs c
      | GE \<Rightarrow> eval x (lhs c) \<ge> rhs c
      | EQ \<Rightarrow> eval x (lhs c) = rhs c)"

definition binary :: "rat \<Rightarrow> bool" where
  "binary r = (r = 0 \<or> r = 1)"

definition feasible :: "grb_model \<Rightarrow> rat list \<Rightarrow> bool" where
  "feasible m x =
     (length x = length (vars m) \<and> list_all binary x \<and> list_all (holds x) (constrs m))"

definition sound :: "solver \<Rightarrow> bool" where
  "sound S = (\<forall>m st v x. S m = (st, v, x) \<and> st = OPTIMAL \<longrightarrow>
     feasible m x \<and> v = eval x (objective m))"

definition complete :: "solver \<Rightarrow> bool" where
  "complete S = (\<forall>m x. feasible m x \<longrightarrow> fst (S m) = OPTIMAL)"

subsection \<open>The pool, the candidates and the criteria\<close>

text \<open>
  The classes of the pool and of the criteria are declared in modules that are not part
  of the sources at hand (\<^verbatim>\<open>kep_h_pool\<close>, \<^verbatim>\<open>optimality_criteria\<close>); the records hold the
  attributes that \<^verbatim>\<open>kep_h.py\<close> reads and writes. People are shared between the pool and
  the candidates, so they are identities and their mutable attributes live in a heap:
  \<^verbatim>\<open>person.mip_vars\<close> (\<open>None\<close> while the attribute is not set) and \<^verbatim>\<open>altruist.mip_var\<close>.
  A chain or a cycle is referred to from the optimiser's list only and carries its
  \<^verbatim>\<open>mip_var\<close> as a field; the lists hold each chain and each cycle once.
  \<open>chain_altruist\<close> is \<^verbatim>\<open>chain.altruist_edge.altruist\<close>, \<open>paired_patients\<close> is
  \<^verbatim>\<open>donor.paired_patients\<close> and \<open>nhs_id\<close> is \<^verbatim>\<open>altruist.nhs_id\<close>.
\<close>

type_synonym obj = nat
  \<comment> \<open>the identity of a Patient, Donor or Altruist object\<close>

record pd_pair =
  patient :: obj
  donor :: obj

record chain =
  chain_index :: int
  chain_altruist :: obj
  chain_pd_pairs :: "pd_pair list"
  chain_mip_var :: var

record cycle =
  cycle_index :: int
  cycle_pd_pairs :: "pd_pair list"
  cycle_mip_var :: var

record pool =
  patients :: "obj list"
  paired_donors :: "obj list"
  altruists :: "obj list"
  paired_patients :: "obj \<Rightarrow> obj list"
  nhs_id :: "obj \<Rightarrow> int"

record heap =
  mip_vars :: "obj \<rightharpoonup> var list"
  altruist_mip_var :: "obj \<Rightarrow> var"

record criterion =
  sense :: string
  chain_val :: "chain \<Rightarrow> rat"
  cycle_val :: "cycle \<Rightarrow> rat"
  altruist_val :: "obj \<Rightarrow> rat"

record PoolOptimiser =
  opt_criteria :: "criterion list"
  pool :: pool
  cycles :: "cycle list"
  chains :: "chain list"

datatype error =
  OptimisationException status
  | UnboundLocalError string
  | NameError string
  | IndexError
  | AttributeError

definition EPSILON :: rat where
  "EPSILON = 1 / 10000000"

subsection \<open>Model construction\<close>

text \<open>
  \<^verbatim>\<open>_create_vars_and_constraints\<close> (lines 41 to 65), one function for each of its loops:
  \<open>reset_mip_vars\<close> (lines 42, 43), \<open>create_chain_vars\<close> (45, 46), \<open>create_cycle_vars\<close>
  (47, 48), \<open>create_altruist_vars\<close> (49 to 51), \<open>link_chains\<close> (55 to 57), \<open>link_cycles\<close>
  (58, 59) and \<open>post_constrs\<close> (61, 62 with \<open>LE\<close> and 64, 65 with \<open>EQ\<close>).
  \<open>append_mip_vars\<close> is \<^verbatim>\<open>person.mip_vars.append(mip_var)\<close>, which raises
  \<^verbatim>\<open>AttributeError\<close> on an object without the attribute.
\<close>

definition append_mip_vars :: "obj \<Rightarrow> var \<Rightarrow> heap \<Rightarrow> error + heap" where
  "append_mip_vars p v h =
     (case mip_vars h p of
        None \<Rightarrow> Inl AttributeError
      | Some vs \<Rightarrow> Inr (h\<lparr>mip_vars := (mip_vars h)(p \<mapsto> vs @ [v])\<rparr>))"

fun add_var_to_patients_and_donors ::
  "pool \<Rightarrow> pd_pair list \<Rightarrow> var \<Rightarrow> heap \<Rightarrow> error + heap" where
  "add_var_to_patients_and_donors P [] mip_var h = Inr h"
| "add_var_to_patients_and_donors P (pd # pds) mip_var h =
     (case append_mip_vars (patient pd) mip_var h of
        Inl e \<Rightarrow> Inl e
      | Inr h1 \<Rightarrow>
          if length (paired_patients P (donor pd)) > 1 then
            (case append_mip_vars (donor pd) mip_var h1 of
               Inl e \<Rightarrow> Inl e
             | Inr h2 \<Rightarrow> add_var_to_patients_and_donors P pds mip_var h2)
          else add_var_to_patients_and_donors P pds mip_var h1)"

fun reset_mip_vars :: "obj list \<Rightarrow> heap \<Rightarrow> heap" where
  "reset_mip_vars [] h = h"
| "reset_mip_vars (p # ps) h = reset_mip_vars ps (h\<lparr>mip_vars := (mip_vars h)(p \<mapsto> [])\<rparr>)"

fun create_chain_vars :: "chain list \<Rightarrow> grb_model \<Rightarrow> chain list \<times> grb_model" where
  "create_chain_vars [] m = ([], m)"
| "create_chain_vars (c # cs) m =
     (case addVar (chain_name (chain_index c)) m of
        (v, m1) \<Rightarrow>
          (case create_chain_vars cs m1 of
             (cs', m2) \<Rightarrow> (c\<lparr>chain_mip_var := v\<rparr> # cs', m2)))"

fun create_cycle_vars :: "cycle list \<Rightarrow> grb_model \<Rightarrow> cycle list \<times> grb_model" where
  "create_cycle_vars [] m = ([], m)"
| "create_cycle_vars (c # cs) m =
     (case addVar (cycle_name (cycle_index c)) m of
        (v, m1) \<Rightarrow>
          (case create_cycle_vars cs m1 of
             (cs', m2) \<Rightarrow> (c\<lparr>cycle_mip_var := v\<rparr> # cs', m2)))"

fun create_altruist_vars ::
  "pool \<Rightarrow> obj list \<Rightarrow> grb_model \<Rightarrow> heap \<Rightarrow> error + (heap \<times> grb_model)" where
  "create_altruist_vars P [] m h = Inr (h, m)"
| "create_altruist_vars P (a # as) m h =
     (case addVar (altruist_name (nhs_id P a)) m of
        (v, m1) \<Rightarrow>
          (case append_mip_vars a v (h\<lparr>altruist_mip_var := (altruist_mip_var h)(a := v)\<rparr>) of
             Inl e \<Rightarrow> Inl e
           | Inr h1 \<Rightarrow> create_altruist_vars P as m1 h1))"

fun link_chains :: "pool \<Rightarrow> chain list \<Rightarrow> heap \<Rightarrow> error + heap" where
  "link_chains P [] h = Inr h"
| "link_chains P (c # cs) h =
     (case append_mip_vars (chain_altruist c) (chain_mip_var c) h of
        Inl e \<Rightarrow> Inl e
      | Inr h1 \<Rightarrow>
          (case add_var_to_patients_and_donors P (chain_pd_pairs c) (chain_mip_var c) h1 of
             Inl e \<Rightarrow> Inl e
           | Inr h2 \<Rightarrow> link_chains P cs h2))"

fun link_cycles :: "pool \<Rightarrow> cycle list \<Rightarrow> heap \<Rightarrow> error + heap" where
  "link_cycles P [] h = Inr h"
| "link_cycles P (c # cs) h =
     (case add_var_to_patients_and_donors P (cycle_pd_pairs c) (cycle_mip_var c) h of
        Inl e \<Rightarrow> Inl e
      | Inr h1 \<Rightarrow> link_cycles P cs h1)"

fun post_constrs :: "rel \<Rightarrow> obj list \<Rightarrow> heap \<Rightarrow> grb_model \<Rightarrow> error + grb_model" where
  "post_constrs r [] h m = Inr m"
| "post_constrs r (p # ps) h m =
     (case mip_vars h p of
        None \<Rightarrow> Inl AttributeError
      | Some vs \<Rightarrow> post_constrs r ps h (addConstr \<lparr>lhs = quicksum vs, rel = r, rhs = 1\<rparr> m))"

definition create_vars_and_constraints ::
  "PoolOptimiser \<Rightarrow> grb_model \<Rightarrow> obj list \<Rightarrow> obj list \<Rightarrow> obj list \<Rightarrow> heap \<Rightarrow>
     error + (PoolOptimiser \<times> heap \<times> grb_model)" where
  "create_vars_and_constraints self model pats dons alts h =
     (let h0 = reset_mip_vars (pats @ dons @ alts) h in
      case create_chain_vars (chains self) model of
        (chains', m1) \<Rightarrow>
      case create_cycle_vars (cycles self) m1 of
        (cycles', m2) \<Rightarrow>
      case create_altruist_vars (pool self) alts m2 h0 of
        Inl e \<Rightarrow> Inl e
      | Inr (h1, m3) \<Rightarrow>
      case link_chains (pool self) chains' h1 of
        Inl e \<Rightarrow> Inl e
      | Inr h2 \<Rightarrow>
      case link_cycles (pool self) cycles' h2 of
        Inl e \<Rightarrow> Inl e
      | Inr h3 \<Rightarrow>
      case post_constrs LE (pats @ dons) h3 m3 of
        Inl e \<Rightarrow> Inl e
      | Inr m4 \<Rightarrow>
      case post_constrs EQ alts h3 m4 of
        Inl e \<Rightarrow> Inl e
      | Inr m5 \<Rightarrow> Inr (self\<lparr>chains := chains', cycles := cycles'\<rparr>, h3, m5))"

subsection \<open>One solve, and the constraint that keeps its optimum\<close>

text \<open>
  \<^verbatim>\<open>_optimise\<close> (lines 28 to 39), \<^verbatim>\<open>_enforce_objective\<close> (lines 67 to 71) and
  \<^verbatim>\<open>_items_in_optimal_solution\<close> (lines 73, 74).
\<close>

record session =
  model :: grb_model
  solves :: "grb_model list"
  printed :: "(chain list \<times> cycle list \<times> obj list) list"

text \<open>
  \<open>solves\<close> and \<open>printed\<close> are the observable effects of a session: the model as it was
  each time \<^verbatim>\<open>model.optimize()\<close> returned, and the selections written by \<^verbatim>\<open>print\<close>.
\<close>

definition criterion_expr :: "PoolOptimiser \<Rightarrow> heap \<Rightarrow> criterion \<Rightarrow> linexpr" where
  "criterion_expr self h opt_criterion =
     map (\<lambda>chain. (chain_mip_var chain, chain_val opt_criterion chain)) (chains self) @
     map (\<lambda>cycle. (cycle_mip_var cycle, cycle_val opt_criterion cycle)) (cycles self) @
     map (\<lambda>altruist. (altruist_mip_var h altruist, altruist_val opt_criterion altruist))
       (altruists (pool self))"

definition optimise ::
  "solver \<Rightarrow> PoolOptimiser \<Rightarrow> heap \<Rightarrow> criterion \<Rightarrow> session \<Rightarrow> linexpr \<times> status \<times> session" where
  "optimise S self h opt_criterion s =
     (let z = criterion_expr self h opt_criterion;
          m1 = (model s)\<lparr>objective := z\<rparr>;
          m2 = m1\<lparr>modelSense := (if sense opt_criterion = ''MAX'' then MAXIMIZE else MINIMIZE)\<rparr>;
          m3 = optimize S m2
      in (z, status m3, s\<lparr>model := m3, solves := solves s @ [m3]\<rparr>))"

definition enforce_objective :: "grb_model \<Rightarrow> linexpr \<Rightarrow> rat \<Rightarrow> string \<Rightarrow> grb_model" where
  "enforce_objective m z obj_val sns =
     (if sns = ''MAX'' then addConstr \<lparr>lhs = z, rel = GE, rhs = obj_val\<rparr> m
      else addConstr \<lparr>lhs = z, rel = LE, rhs = obj_val\<rparr> m)"

definition items_in_optimal_solution :: "grb_model \<Rightarrow> ('a \<Rightarrow> var) \<Rightarrow> 'a list \<Rightarrow> 'a list" where
  "items_in_optimal_solution m mip_var items = filter (\<lambda>item. X m ! mip_var item > 1 / 2) items"

subsection \<open>The intermediate ranks\<close>

text \<open>
  The \<^verbatim>\<open>for\<close> loop of \<^verbatim>\<open>solve\<close> over \<^verbatim>\<open>opt_criteria[:-1]\<close>. Its \<^verbatim>\<open>raise\<close> builds the
  message from \<^verbatim>\<open>solve_status\<close>, a local variable of \<^verbatim>\<open>solve\<close> that is first assigned in
  the \<^verbatim>\<open>while\<close> loop below it: evaluating the argument raises \<^verbatim>\<open>UnboundLocalError\<close>.
\<close>

fun lex_ranks ::
  "solver \<Rightarrow> PoolOptimiser \<Rightarrow> heap \<Rightarrow> criterion list \<Rightarrow> session \<Rightarrow> error \<times> session + session" where
  "lex_ranks S self h [] s = Inr s"
| "lex_ranks S self h (opt_criterion # rest) s =
     (case optimise S self h opt_criterion s of
        (z, st, s1) \<Rightarrow>
          if st \<noteq> OPTIMAL then Inl (UnboundLocalError ''solve_status'', s1)
          else lex_ranks S self h rest
                 (s1\<lparr>model := enforce_objective (model s1) z (objVal (model s1)) (sense opt_criterion)\<rparr>))"

subsection \<open>The enumeration at the last rank\<close>

text \<open>
  One pass through the body of the \<^verbatim>\<open>while True\<close> loop (lines 94 to 127) is \<open>enum_step\<close>.
  It ends the loop (\<open>Stop\<close>) or hands the next pass its state (\<open>Continue\<close>): the session,
  \<^verbatim>\<open>n_solutions\<close> and \<^verbatim>\<open>best_objval_found\<close>. \<open>exit\<close> names the place where the loop
  ended: the \<^verbatim>\<open>break\<close> of line 98 (\<open>STOPPED_INFEASIBLE\<close>), of line 105
  (\<open>STOPPED_DEGRADED\<close>) and of line 124 (\<open>STOPPED_EMPTY\<close>), the \<^verbatim>\<open>return\<close> of line 121
  (\<open>STOPPED_MAXREACHED\<close>), and a \<^verbatim>\<open>raise\<close> (\<open>FAILED\<close>). After a \<^verbatim>\<open>break\<close> line 129
  returns \<^verbatim>\<open>best_objval_found, n_solutions, False\<close>. \<open>last_criterion\<close> is
  \<^verbatim>\<open>opt_criteria[-1]\<close>, an \<^verbatim>\<open>IndexError\<close> on the empty list.
\<close>

datatype exit =
  STOPPED_INFEASIBLE | STOPPED_DEGRADED | STOPPED_EMPTY | STOPPED_MAXREACHED | FAILED

datatype outcome = Raised error | Returned rat int bool

record final =
  exit :: exit
  outcome :: outcome
  session :: session

datatype step = Stop final | Continue session int rat

definition last_criterion :: "criterion list \<Rightarrow> error + criterion" where
  "last_criterion cs = (if cs = [] then Inl IndexError else Inr (last cs))"

definition optimal_vars ::
  "heap \<Rightarrow> chain list \<times> cycle list \<times> obj list \<Rightarrow> var list" where
  "optimal_vars h sel =
     (case sel of (optimal_chains, optimal_cycles, optimal_altruists) \<Rightarrow>
        map chain_mip_var optimal_chains @ map cycle_mip_var optimal_cycles @
        map (altruist_mip_var h) optimal_altruists)"

definition no_good_cut :: "var list \<Rightarrow> constr" where
  "no_good_cut vs = \<lparr>lhs = quicksum vs, rel = LE, rhs = of_int (int (length vs) - 1)\<rparr>"

definition enum_step ::
  "solver \<Rightarrow> PoolOptimiser \<Rightarrow> heap \<Rightarrow> criterion list \<Rightarrow> int \<Rightarrow> session \<Rightarrow> int \<Rightarrow> rat \<Rightarrow> step" where
  "enum_step S self h crits max_solutions s n_solutions best_objval_found =
     (case last_criterion crits of
        Inl e \<Rightarrow> Stop \<lparr>exit = FAILED, outcome = Raised e, session = s\<rparr>
      | Inr opt_criterion \<Rightarrow>
     (case optimise S self h opt_criterion s of
        (z, solve_status, s1) \<Rightarrow>
          if solve_status = INF_OR_UNBD \<or> solve_status = INFEASIBLE then
            Stop \<lparr>exit = STOPPED_INFEASIBLE,
                  outcome = Returned best_objval_found n_solutions False, session = s1\<rparr>
          else if solve_status \<noteq> OPTIMAL then
            Stop \<lparr>exit = FAILED,
                  outcome = Raised (OptimisationException solve_status), session = s1\<rparr>
          else
            let objval = objVal (model s1) in
            if objval + EPSILON < best_objval_found then
              Stop \<lparr>exit = STOPPED_DEGRADED,
                    outcome = Returned best_objval_found n_solutions False, session = s1\<rparr>
            else
              let optimal_chains = items_in_optimal_solution (model s1) chain_mip_var (chains self);
                  optimal_cycles = items_in_optimal_solution (model s1) cycle_mip_var (cycles self);
                  optimal_altruists =
                    items_in_optimal_solution (model s1) (altruist_mip_var h) (altruists (pool self));
                  sel = (optimal_chains, optimal_cycles, optimal_altruists);
                  vs = optimal_vars h sel;
                  best' = objval;
                  n' = n_solutions + 1;
                  s2 = s1\<lparr>printed := printed s1 @ [sel]\<rparr>
              in
                if n' = max_solutions then
                  Stop \<lparr>exit = STOPPED_MAXREACHED, outcome = Returned best' n' True, session = s2\<rparr>
                else if length vs = 0 then
                  Stop \<lparr>exit = STOPPED_EMPTY, outcome = Returned best' n' False, session = s2\<rparr>
                else
                  Continue (s2\<lparr>model := addConstr (no_good_cut vs) (model s2)\<rparr>) n' best'))"

partial_function (option) enum_loop ::
  "solver \<Rightarrow> PoolOptimiser \<Rightarrow> heap \<Rightarrow> criterion list \<Rightarrow> int \<Rightarrow> session \<Rightarrow> int \<Rightarrow> rat \<Rightarrow>
     final option" where
  "enum_loop S self h crits max_solutions s n_solutions best_objval_found =
     (case enum_step S self h crits max_solutions s n_solutions best_objval_found of
        Stop r \<Rightarrow> Some r
      | Continue s' n' best' \<Rightarrow> enum_loop S self h crits max_solutions s' n' best')"

declare enum_loop.simps [code]

subsection \<open>solve\<close>

text \<open>
  \<^verbatim>\<open>solve\<close> reads the name \<^verbatim>\<open>opt_criteria\<close>, which is not a local variable of it and not
  \<^verbatim>\<open>self.opt_criteria\<close>: it is looked up among the globals of the module. The second
  argument is that global, \<open>None\<close> when the module has none of this name
  (\<^verbatim>\<open>NameError\<close>). \<open>None\<close> as the result is a loop that never ends.
\<close>

definition solve ::
  "solver \<Rightarrow> criterion list option \<Rightarrow> PoolOptimiser \<Rightarrow> heap \<Rightarrow> int \<Rightarrow> final option" where
  "solve S global_opt_criteria self h max_solutions =
     (let pats = patients (pool self);
          dons = paired_donors (pool self);
          alts = altruists (pool self);
          s0 = \<lparr>model = Model, solves = [], printed = []\<rparr>
      in
      case create_vars_and_constraints self Model pats dons alts h of
        Inl e \<Rightarrow> Some \<lparr>exit = FAILED, outcome = Raised e, session = s0\<rparr>
      | Inr (self', h', m) \<Rightarrow>
     (case global_opt_criteria of
        None \<Rightarrow>
          Some \<lparr>exit = FAILED, outcome = Raised (NameError ''opt_criteria''),
                session = s0\<lparr>model := m\<rparr>\<rparr>
      | Some crits \<Rightarrow>
     (case lex_ranks S self' h' (butlast crits) (s0\<lparr>model := m\<rparr>) of
        Inl (e, s) \<Rightarrow> Some \<lparr>exit = FAILED, outcome = Raised e, session = s\<rparr>
      | Inr s \<Rightarrow> enum_loop S self' h' crits max_solutions s 0 (- 1))))"

subsection \<open>A reference solver: exhaustive search\<close>

text \<open>
  One behaviour the solver may have, used to run \<open>solve\<close> on concrete pools: all
  assignments of 0 and 1 to the variables are tried in a fixed order and the first best
  feasible one is returned.
\<close>

fun assignments :: "nat \<Rightarrow> rat list list" where
  "assignments 0 = [[]]"
| "assignments (Suc n) = map ((#) 0) (assignments n) @ map ((#) 1) (assignments n)"

fun first_best :: "grb_sense \<Rightarrow> linexpr \<Rightarrow> rat list \<Rightarrow> rat list list \<Rightarrow> rat list" where
  "first_best sns z b [] = b"
| "first_best sns z b (x # xs) =
     (if (case sns of MAXIMIZE \<Rightarrow> eval x z > eval b z | MINIMIZE \<Rightarrow> eval x z < eval b z)
      then first_best sns z x xs else first_best sns z b xs)"

definition exhaustive :: solver where
  "exhaustive m =
     (case filter (feasible m) (assignments (length (vars m))) of
        [] \<Rightarrow> (INFEASIBLE, 0, [])
      | x # xs \<Rightarrow>
          (let b = first_best (modelSense m) (objective m) x xs
           in (OPTIMAL, eval b (objective m), b)))"

text \<open>
  The selections that tie for the optimum of a model, in the words of the specification:
  the feasible assignments whose objective value no feasible assignment beats.
\<close>

definition tied_optimal :: "grb_model \<Rightarrow> rat list list" where
  "tied_optimal m =
     (let fs = filter (feasible m) (assignments (length (vars m)))
      in filter (\<lambda>x. list_all (\<lambda>y. case modelSense m of
                                      MAXIMIZE \<Rightarrow> eval y (objective m) \<le> eval x (objective m)
                                    | MINIMIZE \<Rightarrow> eval x (objective m) \<le> eval y (objective m)) fs) fs)"

text \<open>A solver whose run is interrupted: Gurobi's status 11, with no solution.\<close>

definition interrupted :: solver where
  "interrupted m = (INTERRUPTED, 0, [])"

subsection \<open>Concrete pools\<close>

text \<open>No object carries a \<^verbatim>\<open>mip_vars\<close> attribute before the first call of \<^verbatim>\<open>solve\<close>.\<close>

definition fresh_heap :: heap where
  "fresh_heap = \<lparr>mip_vars = Map.empty, altruist_mip_var = (\<lambda>_. 0)\<rparr>"

text \<open>
  Pool A: altruist 0, patient 1 and her donor 2, and the one chain in which the altruist
  gives to the pair.
\<close>

definition pool_A :: pool where
  "pool_A = \<lparr>patients = [1], paired_donors = [2], altruists = [0],
     paired_patients = (\<lambda>d. if d = 2 then [1] else []), nhs_id = (\<lambda>_. 7)\<rparr>"

definition chain_A :: chain where
  "chain_A = \<lparr>chain_index = 0, chain_altruist = 0,
     chain_pd_pairs = [\<lparr>patient = 1, donor = 2\<rparr>], chain_mip_var = 0\<rparr>"

definition most_chains :: criterion where
  "most_chains = \<lparr>sense = ''MAX'', chain_val = (\<lambda>_. 1), cycle_val = (\<lambda>_. 0),
     altruist_val = (\<lambda>_. 0)\<rparr>"

definition fewest_chains :: criterion where
  "fewest_chains = \<lparr>sense = ''MIN'', chain_val = (\<lambda>_. 1), cycle_val = (\<lambda>_. 0),
     altruist_val = (\<lambda>_. 0)\<rparr>"

definition optimiser_A :: PoolOptimiser where
  "optimiser_A = \<lparr>opt_criteria = [most_chains], pool = pool_A, cycles = [], chains = [chain_A]\<rparr>"




text \<open>Pool C: patient 1 and her donor 2, no altruist and no candidate.\<close>

definition pool_C :: pool where
  "pool_C = \<lparr>patients = [1], paired_donors = [2], altruists = [],
     paired_patients = (\<lambda>d. if d = 2 then [1] else []), nhs_id = (\<lambda>_. 0)\<rparr>"

definition optimiser_C :: PoolOptimiser where
  "optimiser_C = \<lparr>opt_criteria = [most_chains, fewest_chains], pool = pool_C,
     cycles = [], chains = []\<rparr>"

subsection \<open>What the accumulators hold after construction\<close>

text \<open>
  \<open>accumulator self ob\<close> is the list \<^verbatim>\<open>ob.mip_vars\<close> that model construction builds for
  an object of the pool: the variables created for \<open>ob\<close> as an altruist, then for each
  chain its variable, once if \<open>ob\<close> starts the chain, once for every pair of the chain
  whose patient is \<open>ob\<close> and once for every pair whose donor is \<open>ob\<close> and has more than
  one paired patient, then the same for each cycle.
\<close>

definition pair_uses :: "pool \<Rightarrow> obj \<Rightarrow> pd_pair list \<Rightarrow> nat" where
  "pair_uses P ob pds =
     length (filter (\<lambda>pd. patient pd = ob) pds) +
     length (filter (\<lambda>pd. donor pd = ob \<and> length (paired_patients P (donor pd)) > 1) pds)"

definition chain_uses :: "pool \<Rightarrow> obj \<Rightarrow> chain \<Rightarrow> nat" where
  "chain_uses P ob c = (if chain_altruist c = ob then 1 else 0) + pair_uses P ob (chain_pd_pairs c)"

fun own_vars :: "nat \<Rightarrow> obj list \<Rightarrow> obj \<Rightarrow> var list" where
  "own_vars n [] ob = []"
| "own_vars n (a # as) ob = (if a = ob then [n] else []) @ own_vars (Suc n) as ob"

definition accumulator :: "PoolOptimiser \<Rightarrow> obj \<Rightarrow> var list" where
  "accumulator self ob =
     own_vars (length (chains self) + length (cycles self)) (altruists (pool self)) ob @
     concat (map (\<lambda>c. replicate (chain_uses (pool self) ob c) (chain_mip_var c)) (chains self)) @
     concat (map (\<lambda>c. replicate (pair_uses (pool self) ob (cycle_pd_pairs c)) (cycle_mip_var c))
       (cycles self))"

definition grows :: "heap \<Rightarrow> heap \<Rightarrow> (obj \<Rightarrow> var list) \<Rightarrow> bool" where
  "grows h h' L = (\<forall>ob. mip_vars h' ob = map_option (\<lambda>l. l @ L ob) (mip_vars h ob))"

subsection \<open>Well-typed pools\<close>

text \<open>
  Patients, donors and altruists are objects of three classes: the three lists of the
  pool share no object, no altruist is listed twice, every pair of a candidate is a
  patient and a donor of the pool, and every chain starts at an altruist of the pool.
  \<open>candidate_vars self Q\<close> lists the variable of every chain and cycle, once for each of
  its pairs that satisfies \<open>Q\<close>; \<open>number_candidates\<close> gives the chains and cycles the
  variables that \<^verbatim>\<open>addVar\<close> returns, in order; \<open>constrs_as_claimed\<close> is the list of
  constraints with a donor's constraint only for a donor of more than one patient.
\<close>

definition all_pairs :: "PoolOptimiser \<Rightarrow> pd_pair list" where
  "all_pairs self =
     concat (map chain_pd_pairs (chains self)) @ concat (map cycle_pd_pairs (cycles self))"

definition well_typed :: "PoolOptimiser \<Rightarrow> bool" where
  "well_typed self =
     (distinct (altruists (pool self)) \<and>
      list_all (\<lambda>pd. patient pd \<in> set (patients (pool self)) \<and>
                     donor pd \<in> set (paired_donors (pool self))) (all_pairs self) \<and>
      list_all (\<lambda>c. chain_altruist c \<in> set (altruists (pool self))) (chains self) \<and>
      list_all (\<lambda>p. p \<notin> set (paired_donors (pool self)) \<and> p \<notin> set (altruists (pool self)))
        (patients (pool self)) \<and>
      list_all (\<lambda>d. d \<notin> set (altruists (pool self))) (paired_donors (pool self)))"

definition candidate_vars :: "PoolOptimiser \<Rightarrow> (pd_pair \<Rightarrow> bool) \<Rightarrow> var list" where
  "candidate_vars self Q =
     concat (map (\<lambda>c. replicate (length (filter Q (chain_pd_pairs c))) (chain_mip_var c))
       (chains self)) @
     concat (map (\<lambda>c. replicate (length (filter Q (cycle_pd_pairs c))) (cycle_mip_var c))
       (cycles self))"

definition number_candidates :: "PoolOptimiser \<Rightarrow> PoolOptimiser" where
  "number_candidates self =
     self\<lparr>chains := map2 (\<lambda>c v. c\<lparr>chain_mip_var := v\<rparr>) (chains self) [0..<length (chains self)],
          cycles := map2 (\<lambda>c v. c\<lparr>cycle_mip_var := v\<rparr>) (cycles self)
            [length (chains self)..<length (chains self) + length (cycles self)]\<rparr>"

definition constrs_as_claimed :: "PoolOptimiser \<Rightarrow> heap \<Rightarrow> constr list" where
  "constrs_as_claimed self h =
     map (\<lambda>p. \<lparr>lhs = quicksum (candidate_vars self (\<lambda>pd. patient pd = p)), rel = LE, rhs = 1\<rparr>)
       (patients (pool self)) @
     map (\<lambda>d. \<lparr>lhs = quicksum (candidate_vars self (\<lambda>pd. donor pd = d)), rel = LE, rhs = 1\<rparr>)
       (filter (\<lambda>d. length (paired_patients (pool self) d) > 1) (paired_donors (pool self))) @
     map (\<lambda>a. \<lparr>lhs = quicksum (altruist_mip_var h a #
              map chain_mip_var (filter (\<lambda>c. chain_altruist c = a) (chains self))),
            rel = EQ, rhs = 1\<rparr>) (altruists (pool self))"

subsection \<open>Notions for the log of solves\<close>

text \<open>
  \<open>selection self h m\<close> is the selection read from the solution of \<open>m\<close>;
  \<open>kept c m i s\<close> says that the \<open>i\<close>-th solve of the session was on \<open>m\<close> and that the
  constraint \<open>c\<close> stands in the current model and in the model of every later solve;
  \<open>rank_floor c m\<close> is the constraint that \<^verbatim>\<open>_enforce_objective\<close> posts after the solve
  \<open>m\<close> of criterion \<open>c\<close>.
\<close>

definition selection :: "PoolOptimiser \<Rightarrow> heap \<Rightarrow> grb_model \<Rightarrow> chain list \<times> cycle list \<times> obj list" where
  "selection self h m =
     (items_in_optimal_solution m chain_mip_var (chains self),
      items_in_optimal_solution m cycle_mip_var (cycles self),
      items_in_optimal_solution m (altruist_mip_var h) (altruists (pool self)))"

definition kept :: "constr \<Rightarrow> grb_model \<Rightarrow> nat \<Rightarrow> session \<Rightarrow> bool" where
  "kept c m i s =
     (i < length (solves s) \<and> solves s ! i = m \<and> c \<in> set (constrs (model s)) \<and>
      (\<forall>j. i < j \<and> j < length (solves s) \<longrightarrow> c \<in> set (constrs (solves s ! j))))"

definition rank_floor :: "criterion \<Rightarrow> grb_model \<Rightarrow> constr" where
  "rank_floor c m =
     \<lparr>lhs = objective m, rel = (if sense c = ''MAX'' then GE else LE), rhs = objVal m\<rparr>"

definition ranks_session :: "error \<times> session + session \<Rightarrow> session" where
  "ranks_session res = (case res of Inl (e, s) \<Rightarrow> s | Inr s \<Rightarrow> s)"

subsection \<open>Notions for the enumeration\<close>

text \<open>
  \<open>valid_vars self h n\<close>: every variable of a chain, a cycle or an altruist is one of the
  \<open>n\<close> variables of the model. \<open>enumerating k self h nv s\<close> is the invariant of the
  \<^verbatim>\<open>while\<close> loop after \<open>k\<close> solves of intermediate ranks; \<open>enumerated k self h s\<close> is
  what it gives when the loop ends.
\<close>

definition valid_vars :: "PoolOptimiser \<Rightarrow> heap \<Rightarrow> nat \<Rightarrow> bool" where
  "valid_vars self h n =
     (list_all (\<lambda>c. chain_mip_var c < n) (chains self) \<and>
      list_all (\<lambda>c. cycle_mip_var c < n) (cycles self) \<and>
      list_all (\<lambda>a. altruist_mip_var h a < n) (altruists (pool self)))"

definition enumerating :: "nat \<Rightarrow> PoolOptimiser \<Rightarrow> heap \<Rightarrow> nat \<Rightarrow> session \<Rightarrow> bool" where
  "enumerating k self h nv s =
     (length (solves s) = k + length (printed s) \<and> length (vars (model s)) = nv \<and>
      distinct (printed s) \<and>
      (\<forall>p < length (printed s).
         printed s ! p = selection self h (solves s ! (k + p)) \<and>
         optimal_vars h (printed s ! p) \<noteq> [] \<and>
         kept (no_good_cut (optimal_vars h (printed s ! p))) (solves s ! (k + p)) (k + p) s))"

definition enumerated :: "nat \<Rightarrow> PoolOptimiser \<Rightarrow> heap \<Rightarrow> session \<Rightarrow> bool" where
  "enumerated k self h s =
     (distinct (printed s) \<and>
      (\<forall>p < length (printed s).
         k + p < length (solves s) \<and>
         printed s ! p = selection self h (solves s ! (k + p)) \<and>
         (\<forall>q. p < q \<and> k + q < length (solves s) \<longrightarrow>
            no_good_cut (optimal_vars h (printed s ! p)) \<in> set (constrs (solves s ! (k + q))))))"

text \<open>
  Pool D: altruist 0, donor 2 paired with the patients 1 and 3, and two chains from the
  altruist, one to each pair.
\<close>

definition pool_D :: pool where
  "pool_D = \<lparr>patients = [1, 3], paired_donors = [2], altruists = [0],
     paired_patients = (\<lambda>d. if d = 2 then [1, 3] else []), nhs_id = (\<lambda>_. 7)\<rparr>"

definition chain_D1 :: chain where
  "chain_D1 = \<lparr>chain_index = 0, chain_altruist = 0,
     chain_pd_pairs = [\<lparr>patient = 1, donor = 2\<rparr>], chain_mip_var = 0\<rparr>"

definition chain_D2 :: chain where
  "chain_D2 = \<lparr>chain_index = 1, chain_altruist = 0,
     chain_pd_pairs = [\<lparr>patient = 3, donor = 2\<rparr>], chain_mip_var = 1\<rparr>"

definition optimiser_D :: PoolOptimiser where
  "optimiser_D = \<lparr>opt_criteria = [most_chains], pool = pool_D, cycles = [],
     chains = [chain_D1, chain_D2]\<rparr>"

subsection \<open>Selections and feasible solutions\<close>

text \<open>
  \<open>tighter m m0\<close>: every solution of \<open>m\<close> is a solution of \<open>m0\<close>.
  \<open>from_solution self h m0 sel\<close>: the selection \<open>sel\<close> is read from a solution of \<open>m0\<close>.
\<close>

definition tighter :: "grb_model \<Rightarrow> grb_model \<Rightarrow> bool" where
  "tighter m m0 = (\<forall>x. feasible m x \<longrightarrow> feasible m0 x)"

definition from_solution ::
  "PoolOptimiser \<Rightarrow> heap \<Rightarrow> grb_model \<Rightarrow> chain list \<times> cycle list \<times> obj list \<Rightarrow> bool" where
  "from_solution self h m0 sel = (\<exists>m1. sel = selection self h m1 \<and> feasible m0 (X m1))"

section \<open>Properties\<close>

lemmas run_defs =
  solve_def create_vars_and_constraints_def enum_loop.simps enum_step_def
  Model_def addVar_def addConstr_def quicksum_def optimize_def optimise_def
  criterion_expr_def eval_def holds_def feasible_def binary_def append_mip_vars_def
  last_criterion_def no_good_cut_def optimal_vars_def items_in_optimal_solution_def
  enforce_objective_def EPSILON_def exhaustive_def interrupted_def tied_optimal_def Let_def

lemmas pool_A_defs =
  optimiser_A_def pool_A_def chain_A_def most_chains_def fewest_chains_def fresh_heap_def

subsection \<open>The tolerance check and the sense of the last criterion\<close>

text \<open>
  C3 (the code differs). The claim: after an emission the loop stops as degraded exactly
  when the new objective value is worse than the best one by more than \<open>EPSILON\<close>,
  smaller when maximising, larger when minimising. The check of the source is
  \<^verbatim>\<open>objval+self.EPSILON < best_objval_found\<close> whatever the sense. On pool A with the
  minimising criterion \<open>fewest_chains\<close> the first solve finds the value 0 (altruist
  idle), the second the value 1 (the chain), larger by far more than \<open>EPSILON\<close>: the loop
  does not stop there, prints the worse selection as a second solution and ends only
  when the third solve is infeasible.
\<close>

theorem C3_min_sense_never_degrades:
  "map_option (\<lambda>r. (exit r, outcome r, map (\<lambda>m. (status m, objVal m)) (solves (session r)),
       printed (session r)))
     (solve exhaustive (Some [fewest_chains]) optimiser_A fresh_heap 100) =
   Some (STOPPED_INFEASIBLE, Returned 1 2 False,
     [(OPTIMAL, 0), (OPTIMAL, 1), (INFEASIBLE, 0)],
     [([], [], [0]), ([chain_A], [], [])])"
  by (simp add: run_defs pool_A_defs)

subsection \<open>A failed solve at an intermediate rank\<close>

text \<open>
  C4 (the code differs). The claim: a solve at an intermediate rank that is not optimal
  raises \<^verbatim>\<open>OptimisationException\<close>. With two criteria and a solver that reports
  \<open>INTERRUPTED\<close>, the \<^verbatim>\<open>raise\<close> of the \<^verbatim>\<open>for\<close> loop reads \<^verbatim>\<open>solve_status\<close> before any
  assignment to it and the call ends with \<^verbatim>\<open>UnboundLocalError\<close>; with one criterion
  the same status reaches the \<^verbatim>\<open>raise\<close> of the \<^verbatim>\<open>while\<close> loop, which does raise
  \<^verbatim>\<open>OptimisationException\<close>.
\<close>

theorem C4_intermediate_failure_is_UnboundLocalError:
  "map_option outcome
     (solve interrupted (Some [most_chains, fewest_chains]) optimiser_A fresh_heap 100) =
   Some (Raised (UnboundLocalError ''solve_status'')) \<and>
   map_option outcome (solve interrupted (Some [most_chains]) optimiser_A fresh_heap 100) =
   Some (Raised (OptimisationException INTERRUPTED))"
  by (simp add: run_defs pool_A_defs)

subsection \<open>Which criteria are optimised\<close>

text \<open>
  C5 (the code differs). The claim: \<^verbatim>\<open>solve\<close> optimises the criteria given to the
  constructor, \<^verbatim>\<open>self.opt_criteria\<close>, and depends on nothing outside the optimiser and
  its pool. \<open>optimiser_A\<close> was built with \<open>[most_chains]\<close>. Where the module has no
  global \<^verbatim>\<open>opt_criteria\<close> the call raises \<^verbatim>\<open>NameError\<close>; where the global is
  \<open>[fewest_chains]\<close> the call minimises; only where the global happens to be the
  constructor's list does it maximise.
\<close>

theorem C5_solve_reads_the_global_criteria:
  "opt_criteria optimiser_A = [most_chains] \<and>
   map_option outcome (solve exhaustive None optimiser_A fresh_heap 100) =
     Some (Raised (NameError ''opt_criteria'')) \<and>
   map_option (\<lambda>r. (outcome r, printed (session r)))
     (solve exhaustive (Some [fewest_chains]) optimiser_A fresh_heap 100) =
     Some (Returned 1 2 False, [([], [], [0]), ([chain_A], [], [])]) \<and>
   map_option (\<lambda>r. (outcome r, printed (session r)))
     (solve exhaustive (Some [most_chains]) optimiser_A fresh_heap 100) =
     Some (Returned 1 1 False, [([chain_A], [], [])])"
  by (simp add: run_defs pool_A_defs)

subsection \<open>The number of iterations\<close>

text \<open>
  C8 (the code differs). The claim: the enumeration ends within as many iterations as
  there are tied-optimal selections, plus one. On pool A with \<open>fewest_chains\<close> one
  selection is optimal (the altruist idle, value 0), and the loop solves three times:
  the tolerance check never fires for a minimising criterion (see C3), so the loop goes
  on through the selections that are not optimal.
\<close>

theorem C8_more_iterations_than_tied_optima:
  "map_option (\<lambda>r. (exit r, length (solves (session r)),
       tied_optimal (hd (solves (session r)))))
     (solve exhaustive (Some [fewest_chains]) optimiser_A fresh_heap 100) =
   Some (STOPPED_INFEASIBLE, 3, [[0, 1]])"
  by (simp add: run_defs pool_A_defs)

subsection \<open>The exhaustive solver is sound and complete\<close>

lemma assignments_set: "set (assignments n) = {x. length x = n \<and> list_all binary x}"
proof (induction n)
  case 0
  show ?case by auto
next
  case (Suc n)
  show ?case
  proof (rule set_eqI)
    fix x :: "rat list"
    show "x \<in> set (assignments (Suc n)) \<longleftrightarrow> x \<in> {x. length x = Suc n \<and> list_all binary x}"
    proof (cases x)
      case Nil
      then show ?thesis by auto
    next
      case (Cons a y)
      with Suc show ?thesis by (auto simp: list_all_iff binary_def image_iff)
    qed
  qed
qed

lemma first_best_mem: "first_best sns z b xs \<in> set (b # xs)"
  by (induction xs arbitrary: b) auto

lemma exhaustive_OPTIMAL:
  assumes "exhaustive m = (OPTIMAL, v, x)"
  shows "feasible m x \<and> v = eval x (objective m)"
proof (cases "filter (feasible m) (assignments (length (vars m)))")
  case Nil
  with assms show ?thesis by (simp add: exhaustive_def)
next
  case (Cons y ys)
  with assms have x: "x = first_best (modelSense m) (objective m) y ys"
    and v: "v = eval x (objective m)"
    by (auto simp: exhaustive_def Let_def)
  have "x \<in> set (y # ys)" unfolding x by (rule first_best_mem)
  with Cons have "x \<in> set (filter (feasible m) (assignments (length (vars m))))" by simp
  then have "feasible m x" by simp
  with v show ?thesis by simp
qed

lemma exhaustive_sound: "sound exhaustive"
  unfolding sound_def using exhaustive_OPTIMAL by blast

lemma exhaustive_complete: "complete exhaustive"
  unfolding complete_def
proof (intro allI impI)
  fix m x
  assume f: "feasible m x"
  then have "x \<in> set (assignments (length (vars m)))"
    by (simp add: assignments_set feasible_def)
  with f have "x \<in> set (filter (feasible m) (assignments (length (vars m))))" by simp
  then obtain y ys where "filter (feasible m) (assignments (length (vars m))) = y # ys"
    by (cases "filter (feasible m) (assignments (length (vars m)))") auto
  then show "fst (exhaustive m) = OPTIMAL" by (simp add: exhaustive_def Let_def)
qed



subsection \<open>The sentinel of the best objective value\<close>





subsection \<open>The empty pool\<close>

lemma reset_mip_vars_apply:
  "mip_vars (reset_mip_vars ps h) p = (if p \<in> set ps then Some [] else mip_vars h p)"
  by (induction ps arbitrary: h) auto

lemma reset_altruist_mip_var: "altruist_mip_var (reset_mip_vars ps h) = altruist_mip_var h"
  by (induction ps arbitrary: h) auto

lemma post_constrs_Inr:
  "\<forall>p \<in> set ps. mip_vars h p \<noteq> None \<Longrightarrow>
   post_constrs r ps h m =
     Inr (m\<lparr>constrs := constrs m @
       map (\<lambda>p. \<lparr>lhs = quicksum (the (mip_vars h p)), rel = r, rhs = 1\<rparr>) ps\<rparr>)"
  by (induction ps arbitrary: m) (auto simp: addConstr_def)

lemma feasible_cong:
  "vars m' = vars m \<Longrightarrow> constrs m' = constrs m \<Longrightarrow> feasible m' x = feasible m x"
  by (simp add: feasible_def)

lemma create_empty:
  assumes "chains self = []" "cycles self = []" "altruists (pool self) = []"
  shows "\<exists>self' h' m. create_vars_and_constraints self Model (patients (pool self))
       (paired_donors (pool self)) (altruists (pool self)) h = Inr (self', h', m) \<and>
     chains self' = [] \<and> cycles self' = [] \<and> pool self' = pool self \<and> feasible m []"
proof -
  let ?ps = "patients (pool self) @ paired_donors (pool self)"
  let ?h0 = "reset_mip_vars ?ps h"
  have dom: "\<forall>p \<in> set ?ps. mip_vars ?h0 p \<noteq> None"
    by (simp add: reset_mip_vars_apply)
  have acc: "\<And>p. p \<in> set ?ps \<Longrightarrow> the (mip_vars ?h0 p) = []"
    by (simp add: reset_mip_vars_apply)
  let ?m = "Model\<lparr>constrs := constrs Model @
       map (\<lambda>p. \<lparr>lhs = quicksum (the (mip_vars ?h0 p)), rel = LE, rhs = 1\<rparr>) ?ps\<rparr>"
  have "feasible ?m []"
    using acc by (auto simp: feasible_def Model_def list_all_iff holds_def eval_def quicksum_def)
  moreover have "create_vars_and_constraints self Model (patients (pool self))
       (paired_donors (pool self)) (altruists (pool self)) h =
       Inr (self\<lparr>chains := [], cycles := []\<rparr>, ?h0, ?m)"
    using assms post_constrs_Inr [OF dom, of LE Model]
    by (simp add: create_vars_and_constraints_def Let_def)
  ultimately show ?thesis by simp
qed

lemma optimise_void:
  assumes S: "sound S" "complete S"
    and empty: "chains self = []" "cycles self = []" "altruists (pool self) = []"
    and feas: "feasible (model s) []"
  shows "\<exists>s1. optimise S self h c s = ([], OPTIMAL, s1) \<and> objVal (model s1) = 0 \<and>
     X (model s1) = [] \<and> vars (model s1) = vars (model s) \<and>
     constrs (model s1) = constrs (model s) \<and> printed s1 = printed s \<and>
     solves s1 = solves s @ [model s1]"
proof -
  let ?m2 = "(model s)\<lparr>objective := [],
      modelSense := (if sense c = ''MAX'' then MAXIMIZE else MINIMIZE)\<rparr>"
  obtain st v x where sm: "S ?m2 = (st, v, x)" by (cases "S ?m2")
  have f2: "feasible ?m2 []" using feas by (simp add: feasible_def)
  with S(2) have "fst (S ?m2) = OPTIMAL" unfolding complete_def by blast
  with sm have st: "st = OPTIMAL" by simp
  with S(1) sm have "feasible ?m2 x \<and> v = eval x (objective ?m2)" unfolding sound_def by blast
  moreover from f2 have "vars ?m2 = []" by (simp add: feasible_def)
  ultimately have x: "x = []" and v: "v = 0" by (auto simp: feasible_def eval_def)
  show ?thesis
    using empty sm st x v by (simp add: optimise_def criterion_expr_def optimize_def Let_def)
qed

lemma lex_ranks_void:
  assumes S: "sound S" "complete S"
    and empty: "chains self = []" "cycles self = []" "altruists (pool self) = []"
  shows "feasible (model s) [] \<Longrightarrow>
     \<exists>s'. lex_ranks S self h cs s = Inr s' \<and> feasible (model s') [] \<and>
       printed s' = printed s \<and> length (solves s') = length (solves s) + length cs"
proof (induction cs arbitrary: s)
  case Nil
  then show ?case by simp
next
  case (Cons c cs)
  from optimise_void [OF S empty Cons.prems, of h c]
  obtain s1 where o: "optimise S self h c s = ([], OPTIMAL, s1)" and v: "objVal (model s1) = 0"
    and vs: "vars (model s1) = vars (model s)" and cs: "constrs (model s1) = constrs (model s)"
    and pr: "printed s1 = printed s" and so: "solves s1 = solves s @ [model s1]"
    by blast
  let ?s2 = "s1\<lparr>model := enforce_objective (model s1) [] (objVal (model s1)) (sense c)\<rparr>"
  have "feasible (model ?s2) []"
    using Cons.prems v vs cs
    by (simp add: feasible_def enforce_objective_def addConstr_def holds_def eval_def)
  from Cons.IH [OF this] obtain s' where "lex_ranks S self h cs ?s2 = Inr s'"
    and "feasible (model s') []" and "printed s' = printed ?s2"
    and "length (solves s') = length (solves ?s2) + length cs"
    by blast
  with o pr so show ?case by simp
qed

text \<open>
  C9 (amended). With no chain, no cycle and no altruist, a sound and complete solver and
  at least one criterion, every solve is optimal with value 0, the one selection printed
  is empty and the count is 1. The cap is tested before the empty selection: the loop
  stops on the empty selection with \<open>limit_reached = False\<close> unless \<open>max_solutions\<close> is 1,
  and stops on the cap with \<open>limit_reached = True\<close> when it is 1.
\<close>

theorem C9_empty_pool:
  assumes S: "sound S" "complete S"
    and empty: "chains self = []" "cycles self = []" "altruists (pool self) = []"
    and crits: "crits \<noteq> []"
  shows "\<exists>r. solve S (Some crits) self h max_solutions = Some r \<and>
     printed (session r) = [([], [], [])] \<and>
     length (solves (session r)) = length crits \<and>
     status (last (solves (session r))) = OPTIMAL \<and>
     objVal (last (solves (session r))) = 0 \<and>
     exit r = (if max_solutions = 1 then STOPPED_MAXREACHED else STOPPED_EMPTY) \<and>
     outcome r = Returned 0 1 (max_solutions = 1)"
proof -
  from create_empty [OF empty, of h]
  obtain self' h' m where built: "create_vars_and_constraints self Model (patients (pool self))
       (paired_donors (pool self)) (altruists (pool self)) h = Inr (self', h', m)"
    and empty': "chains self' = []" "cycles self' = []" "altruists (pool self') = []"
    and fm: "feasible m []"
    using empty(3) by auto
  let ?s0 = "\<lparr>model = m, solves = [], printed = []\<rparr>"
  from fm have "feasible (model ?s0) []" by simp
  from lex_ranks_void [OF S empty' this, of h' "butlast crits"]
  obtain s where ranks: "lex_ranks S self' h' (butlast crits) ?s0 = Inr s"
    and fs: "feasible (model s) []" and ps: "printed s = []"
    and ls: "length (solves s) = length (butlast crits)"
    by auto
  from optimise_void [OF S empty' fs, of h' "last crits"]
  obtain s1 where o: "optimise S self' h' (last crits) s = ([], OPTIMAL, s1)"
    and v: "objVal (model s1) = 0" and x: "X (model s1) = []"
    and pr: "printed s1 = printed s" and so: "solves s1 = solves s @ [model s1]"
    by blast
  from o have st: "status (model s1) = OPTIMAL"
    by (auto simp: optimise_def Let_def)
  let ?s2 = "s1\<lparr>printed := printed s1 @ [([], [], [])]\<rparr>"
  let ?r = "\<lparr>exit = (if max_solutions = 1 then STOPPED_MAXREACHED else STOPPED_EMPTY),
      outcome = Returned 0 1 (max_solutions = 1), session = ?s2\<rparr>"
  have "enum_step S self' h' crits max_solutions s 0 (- 1) = Stop ?r"
    using crits o v empty'
    by (simp add: enum_step_def last_criterion_def EPSILON_def items_in_optimal_solution_def
        optimal_vars_def Let_def)
  then have "enum_loop S self' h' crits max_solutions s 0 (- 1) = Some ?r"
    by (simp add: enum_loop.simps)
  with built ranks have "solve S (Some crits) self h max_solutions = Some ?r"
    by (simp add: solve_def)
  moreover have "length (solves ?s2) = length crits" using so ls crits by simp
  moreover have "last (solves ?s2) = model s1" using so by simp
  ultimately show ?thesis using pr ps v st by simp
qed


lemmas pool_C_defs = optimiser_C_def pool_C_def most_chains_def fewest_chains_def fresh_heap_def

theorem C9_witness:
  "map_option (\<lambda>r. (exit r, outcome r, printed (session r),
       map (\<lambda>m. (status m, objVal m)) (solves (session r))))
     (solve exhaustive (Some [most_chains, fewest_chains]) optimiser_C fresh_heap 100) =
   Some (STOPPED_EMPTY, Returned 0 1 False, [([], [], [])], [(OPTIMAL, 0), (OPTIMAL, 0)])"
proof -
  have empty: "chains optimiser_C = []" "cycles optimiser_C = []"
      "altruists (pool optimiser_C) = []"
    by (simp_all add: pool_C_defs)
  have crits: "[most_chains, fewest_chains] \<noteq> []" by simp
  from C9_empty_pool [OF exhaustive_sound exhaustive_complete empty crits, of fresh_heap 100]
  obtain r where "solve exhaustive (Some [most_chains, fewest_chains]) optimiser_C fresh_heap 100
      = Some r"
    and "printed (session r) = [([], [], [])]" and "exit r = STOPPED_EMPTY"
    and "outcome r = Returned 0 1 False"
    by auto
  moreover have "map_option (\<lambda>r. map (\<lambda>m. (status m, objVal m)) (solves (session r)))
     (solve exhaustive (Some [most_chains, fewest_chains]) optimiser_C fresh_heap 100) =
     Some [(OPTIMAL, 0), (OPTIMAL, 0)]"
    by (simp add: run_defs pool_C_defs)
  ultimately show ?thesis by simp
qed

text \<open>
  The claim as stated, \<open>limit_reached = False\<close> for the empty pool, fails for
  \<open>max_solutions = 1\<close>.
\<close>

theorem C9_counterexample:
  "map_option (\<lambda>r. (exit r, outcome r))
     (solve exhaustive (Some [most_chains, fewest_chains]) optimiser_C fresh_heap 1) =
   Some (STOPPED_MAXREACHED, Returned 0 1 True)"
  by (simp add: run_defs pool_C_defs)

subsection \<open>Model construction, phase by phase\<close>

lemma grows_trans:
  "grows h h1 L1 \<Longrightarrow> grows h1 h2 L2 \<Longrightarrow> grows h h2 (\<lambda>ob. L1 ob @ L2 ob)"
  by (simp add: grows_def option.map_comp comp_def)

lemma grows_refl: "grows h h (\<lambda>_. [])"
  by (simp add: grows_def option.map_ident)

lemma grows_cong: "grows h h' L \<Longrightarrow> (\<And>ob. L ob = L' ob) \<Longrightarrow> grows h h' L'"
  by (simp add: grows_def)

lemma append_mip_vars_grows:
  assumes "append_mip_vars p v h = Inr h'"
  shows "grows h h' (\<lambda>ob. if ob = p then [v] else [])"
    and "altruist_mip_var h' = altruist_mip_var h"
  using assms by (auto simp: append_mip_vars_def grows_def option.map_ident split: option.splits)

lemma pair_uses_Nil [simp]: "pair_uses P ob [] = 0"
  by (simp add: pair_uses_def)

lemma pair_uses_Cons:
  "pair_uses P ob (pd # pds) =
     (if patient pd = ob then 1 else 0) +
     (if donor pd = ob \<and> length (paired_patients P (donor pd)) > 1 then 1 else 0) +
     pair_uses P ob pds"
  by (auto simp: pair_uses_def)

lemma add_var_grows:
  "add_var_to_patients_and_donors P pds v h = Inr h' \<Longrightarrow>
   grows h h' (\<lambda>ob. replicate (pair_uses P ob pds) v) \<and> altruist_mip_var h' = altruist_mip_var h"
proof (induction pds arbitrary: h)
  case Nil
  then show ?case by (simp add: grows_refl)
next
  case (Cons pd pds)
  from Cons.prems obtain h1 where a1: "append_mip_vars (patient pd) v h = Inr h1"
    by (auto split: sum.splits)
  note g1 = append_mip_vars_grows [OF a1]
  show ?case
  proof (cases "length (paired_patients P (donor pd)) > 1")
    case True
    with Cons.prems a1 obtain h2 where a2: "append_mip_vars (donor pd) v h1 = Inr h2"
      and rest: "add_var_to_patients_and_donors P pds v h2 = Inr h'"
      by (auto split: sum.splits)
    note g2 = append_mip_vars_grows [OF a2]
    from Cons.IH [OF rest] have g3: "grows h2 h' (\<lambda>ob. replicate (pair_uses P ob pds) v)"
      and m3: "altruist_mip_var h' = altruist_mip_var h2" by simp_all
    have "grows h h' (\<lambda>ob. ((if ob = patient pd then [v] else []) @
        (if ob = donor pd then [v] else [])) @ replicate (pair_uses P ob pds) v)"
      by (rule grows_trans [OF grows_trans [OF g1(1) g2(1)] g3])
    then have "grows h h' (\<lambda>ob. replicate (pair_uses P ob (pd # pds)) v)"
      by (rule grows_cong) (use True in \<open>auto simp: pair_uses_Cons\<close>)
    with g1(2) g2(2) m3 show ?thesis by simp
  next
    case False
    with Cons.prems a1 have rest: "add_var_to_patients_and_donors P pds v h1 = Inr h'"
      by (auto split: sum.splits)
    from Cons.IH [OF rest] have g3: "grows h1 h' (\<lambda>ob. replicate (pair_uses P ob pds) v)"
      and m3: "altruist_mip_var h' = altruist_mip_var h1" by simp_all
    have "grows h h' (\<lambda>ob. (if ob = patient pd then [v] else []) @
        replicate (pair_uses P ob pds) v)"
      by (rule grows_trans [OF g1(1) g3])
    then have "grows h h' (\<lambda>ob. replicate (pair_uses P ob (pd # pds)) v)"
      by (rule grows_cong) (use False in \<open>auto simp: pair_uses_Cons\<close>)
    with g1(2) m3 show ?thesis by simp
  qed
qed

lemma link_cycles_grows:
  "link_cycles P cs h = Inr h' \<Longrightarrow>
   grows h h' (\<lambda>ob. concat (map (\<lambda>c. replicate (pair_uses P ob (cycle_pd_pairs c)) (cycle_mip_var c)) cs))
   \<and> altruist_mip_var h' = altruist_mip_var h"
proof (induction cs arbitrary: h)
  case Nil
  then show ?case by (simp add: grows_refl)
next
  case (Cons c cs)
  from Cons.prems obtain h1 where
    a1: "add_var_to_patients_and_donors P (cycle_pd_pairs c) (cycle_mip_var c) h = Inr h1"
    and rest: "link_cycles P cs h1 = Inr h'"
    by (auto split: sum.splits)
  from add_var_grows [OF a1] Cons.IH [OF rest] show ?case
    by (auto intro: grows_cong [OF grows_trans])
qed

lemma link_chains_grows:
  "link_chains P cs h = Inr h' \<Longrightarrow>
   grows h h' (\<lambda>ob. concat (map (\<lambda>c. replicate (chain_uses P ob c) (chain_mip_var c)) cs))
   \<and> altruist_mip_var h' = altruist_mip_var h"
proof (induction cs arbitrary: h)
  case Nil
  then show ?case by (simp add: grows_refl)
next
  case (Cons c cs)
  from Cons.prems obtain h1 h2 where
    a0: "append_mip_vars (chain_altruist c) (chain_mip_var c) h = Inr h1"
    and a1: "add_var_to_patients_and_donors P (chain_pd_pairs c) (chain_mip_var c) h1 = Inr h2"
    and rest: "link_chains P cs h2 = Inr h'"
    by (auto split: sum.splits)
  note g0 = append_mip_vars_grows [OF a0]
  from add_var_grows [OF a1] have g1: "grows h1 h2
      (\<lambda>ob. replicate (pair_uses P ob (chain_pd_pairs c)) (chain_mip_var c))"
    and m1: "altruist_mip_var h2 = altruist_mip_var h1" by simp_all
  from Cons.IH [OF rest] have g2: "grows h2 h'
      (\<lambda>ob. concat (map (\<lambda>c. replicate (chain_uses P ob c) (chain_mip_var c)) cs))"
    and m2: "altruist_mip_var h' = altruist_mip_var h2" by simp_all
  have "grows h h' (\<lambda>ob. ((if ob = chain_altruist c then [chain_mip_var c] else []) @
      replicate (pair_uses P ob (chain_pd_pairs c)) (chain_mip_var c)) @
      concat (map (\<lambda>c. replicate (chain_uses P ob c) (chain_mip_var c)) cs))"
    by (rule grows_trans [OF grows_trans [OF g0(1) g1] g2])
  then have "grows h h'
      (\<lambda>ob. concat (map (\<lambda>c. replicate (chain_uses P ob c) (chain_mip_var c)) (c # cs)))"
    by (rule grows_cong) (auto simp: chain_uses_def)
  with g0(2) m1 m2 show ?case by simp
qed


lemma create_chain_vars_eq:
  "create_chain_vars cs m =
     (map2 (\<lambda>c v. c\<lparr>chain_mip_var := v\<rparr>) cs [length (vars m)..<length (vars m) + length cs],
      m\<lparr>vars := vars m @ map (\<lambda>c. chain_name (chain_index c)) cs\<rparr>)"
proof (induction cs arbitrary: m)
  case Nil
  show ?case by simp
next
  case (Cons c cs)
  have "[length (vars m)..<length (vars m) + length (c # cs)] =
      length (vars m) # [Suc (length (vars m))..<Suc (length (vars m)) + length cs]"
    by (subst upt_rec) simp
  then show ?case by (simp add: Cons.IH addVar_def del: upt_Suc)
qed

lemma create_cycle_vars_eq:
  "create_cycle_vars cs m =
     (map2 (\<lambda>c v. c\<lparr>cycle_mip_var := v\<rparr>) cs [length (vars m)..<length (vars m) + length cs],
      m\<lparr>vars := vars m @ map (\<lambda>c. cycle_name (cycle_index c)) cs\<rparr>)"
proof (induction cs arbitrary: m)
  case Nil
  show ?case by simp
next
  case (Cons c cs)
  have "[length (vars m)..<length (vars m) + length (c # cs)] =
      length (vars m) # [Suc (length (vars m))..<Suc (length (vars m)) + length cs]"
    by (subst upt_rec) simp
  then show ?case by (simp add: Cons.IH addVar_def del: upt_Suc)
qed

lemma own_vars_empty: "own_vars n as ob = [] \<longleftrightarrow> ob \<notin> set as"
  by (induction as arbitrary: n) auto

lemma own_vars_range: "v \<in> set (own_vars n as ob) \<Longrightarrow> n \<le> v \<and> v < n + length as"
  by (induction as arbitrary: n) (fastforce split: if_splits)+

lemma own_vars_distinct: "distinct as \<Longrightarrow> ob \<in> set as \<Longrightarrow> length (own_vars n as ob) = 1"
  by (induction as arbitrary: n) (auto simp: own_vars_empty)

lemma create_altruist_vars_grows:
  "create_altruist_vars P as m h = Inr (h', m') \<Longrightarrow>
   m' = m\<lparr>vars := vars m @ map (\<lambda>a. altruist_name (nhs_id P a)) as\<rparr> \<and>
   grows h h' (own_vars (length (vars m)) as) \<and>
   (\<forall>ob. altruist_mip_var h' ob =
      (if ob \<in> set as then last (own_vars (length (vars m)) as ob) else altruist_mip_var h ob))"
proof (induction as arbitrary: m h)
  case Nil
  then show ?case by (simp add: grows_refl)
next
  case (Cons a as)
  let ?n = "length (vars m)"
  let ?m1 = "m\<lparr>vars := vars m @ [altruist_name (nhs_id P a)]\<rparr>"
  let ?h0 = "h\<lparr>altruist_mip_var := (altruist_mip_var h)(a := ?n)\<rparr>"
  from Cons.prems obtain h1 where a1: "append_mip_vars a ?n ?h0 = Inr h1"
    and rest: "create_altruist_vars P as ?m1 h1 = Inr (h', m')"
    by (auto simp: addVar_def split: sum.splits)
  from append_mip_vars_grows [OF a1] have g1: "grows ?h0 h1 (\<lambda>ob. if ob = a then [?n] else [])"
    and v1: "altruist_mip_var h1 = (altruist_mip_var h)(a := ?n)" by simp_all
  from g1 have g1': "grows h h1 (\<lambda>ob. if ob = a then [?n] else [])" by (simp add: grows_def)
  from Cons.IH [OF rest] have m': "m' = ?m1\<lparr>vars := vars ?m1 @ map (\<lambda>a. altruist_name (nhs_id P a)) as\<rparr>"
    and g2: "grows h1 h' (own_vars (Suc ?n) as)"
    and v2: "\<And>ob. altruist_mip_var h' ob =
      (if ob \<in> set as then last (own_vars (Suc ?n) as ob) else altruist_mip_var h1 ob)"
    by simp_all
  have "grows h h' (\<lambda>ob. (if ob = a then [?n] else []) @ own_vars (Suc ?n) as ob)"
    by (rule grows_trans [OF g1' g2])
  then have "grows h h' (own_vars ?n (a # as))"
    by (rule grows_cong) auto
  moreover from m' have "m' = m\<lparr>vars := vars m @ map (\<lambda>a. altruist_name (nhs_id P a)) (a # as)\<rparr>"
    by simp
  moreover have "\<forall>ob. altruist_mip_var h' ob =
      (if ob \<in> set (a # as) then last (own_vars ?n (a # as) ob) else altruist_mip_var h ob)"
    using v1 v2 by (auto simp: own_vars_empty)
  ultimately show ?case by blast
qed

lemma post_constrs_eq:
  "post_constrs r ps h m = Inr m' \<Longrightarrow>
   m' = m\<lparr>constrs := constrs m @
       map (\<lambda>p. \<lparr>lhs = quicksum (the (mip_vars h p)), rel = r, rhs = 1\<rparr>) ps\<rparr>"
proof (induction ps arbitrary: m)
  case Nil
  then show ?case by simp
next
  case (Cons p ps)
  from Cons.prems obtain vs where vs: "mip_vars h p = Some vs"
    and rest: "post_constrs r ps h (addConstr \<lparr>lhs = quicksum vs, rel = r, rhs = 1\<rparr> m) = Inr m'"
    by (auto split: option.splits)
  from Cons.IH [OF rest] vs show ?case by (simp add: addConstr_def)
qed


lemma create_char:
  assumes built: "create_vars_and_constraints self Model (patients (pool self))
       (paired_donors (pool self)) (altruists (pool self)) h = Inr (self', h', m)"
  shows "self' = self\<lparr>
           chains := map2 (\<lambda>c v. c\<lparr>chain_mip_var := v\<rparr>) (chains self) [0..<length (chains self)],
           cycles := map2 (\<lambda>c v. c\<lparr>cycle_mip_var := v\<rparr>) (cycles self)
             [length (chains self)..<length (chains self) + length (cycles self)]\<rparr>"
    and "m = Model\<lparr>
           vars := map (\<lambda>c. chain_name (chain_index c)) (chains self) @
             map (\<lambda>c. cycle_name (cycle_index c)) (cycles self) @
             map (\<lambda>a. altruist_name (nhs_id (pool self) a)) (altruists (pool self)),
           constrs :=
             map (\<lambda>p. \<lparr>lhs = quicksum (accumulator self' p), rel = LE, rhs = 1\<rparr>)
               (patients (pool self) @ paired_donors (pool self)) @
             map (\<lambda>a. \<lparr>lhs = quicksum (accumulator self' a), rel = EQ, rhs = 1\<rparr>)
               (altruists (pool self))\<rparr>"
    and "\<forall>ob \<in> set (patients (pool self) @ paired_donors (pool self) @ altruists (pool self)).
           mip_vars h' ob = Some (accumulator self' ob)"
    and "\<forall>a \<in> set (altruists (pool self)). altruist_mip_var h' a =
           last (own_vars (length (chains self) + length (cycles self)) (altruists (pool self)) a)"
proof -
  let ?P = "pool self"
  let ?pats = "patients ?P" and ?dons = "paired_donors ?P" and ?alts = "altruists ?P"
  let ?nch = "length (chains self)" and ?ncy = "length (cycles self)"
  let ?h0 = "reset_mip_vars (?pats @ ?dons @ ?alts) h"
  let ?chains' = "map2 (\<lambda>c v. c\<lparr>chain_mip_var := v\<rparr>) (chains self) [0..<?nch]"
  let ?m1 = "Model\<lparr>vars := map (\<lambda>c. chain_name (chain_index c)) (chains self)\<rparr>"
  let ?cycles' = "map2 (\<lambda>c v. c\<lparr>cycle_mip_var := v\<rparr>) (cycles self) [?nch..<?nch + ?ncy]"
  let ?m2 = "Model\<lparr>vars := map (\<lambda>c. chain_name (chain_index c)) (chains self) @
      map (\<lambda>c. cycle_name (cycle_index c)) (cycles self)\<rparr>"
  have c1: "create_chain_vars (chains self) Model = (?chains', ?m1)"
    by (simp add: create_chain_vars_eq Model_def)
  have c2: "create_cycle_vars (cycles self) ?m1 = (?cycles', ?m2)"
    by (simp add: create_cycle_vars_eq Model_def)
  from built c1 c2 obtain h1 m3 h2 h3 m4 where
    a: "create_altruist_vars ?P ?alts ?m2 ?h0 = Inr (h1, m3)"
    and l1: "link_chains ?P ?chains' h1 = Inr h2"
    and l2: "link_cycles ?P ?cycles' h2 = Inr h3"
    and p1: "post_constrs LE (?pats @ ?dons) h3 m3 = Inr m4"
    and p2: "post_constrs EQ ?alts h3 m4 = Inr m"
    and self': "self' = self\<lparr>chains := ?chains', cycles := ?cycles'\<rparr>"
    and h': "h' = h3"
    by (auto simp: create_vars_and_constraints_def Let_def split: sum.splits)
  show "self' = self\<lparr>chains := ?chains', cycles := ?cycles'\<rparr>" by (rule self')
  have n2: "length (vars ?m2) = ?nch + ?ncy" by simp
  from create_altruist_vars_grows [OF a]
  have m3: "m3 = ?m2\<lparr>vars := vars ?m2 @ map (\<lambda>a. altruist_name (nhs_id ?P a)) ?alts\<rparr>"
    and g1: "grows ?h0 h1 (own_vars (?nch + ?ncy) ?alts)"
    and v1: "\<And>ob. altruist_mip_var h1 ob =
      (if ob \<in> set ?alts then last (own_vars (?nch + ?ncy) ?alts ob) else altruist_mip_var ?h0 ob)"
    unfolding n2 by simp_all
  from link_chains_grows [OF l1]
  have g2: "grows h1 h2 (\<lambda>ob. concat (map (\<lambda>c. replicate (chain_uses ?P ob c) (chain_mip_var c)) ?chains'))"
    and v2: "altruist_mip_var h2 = altruist_mip_var h1" by simp_all
  from link_cycles_grows [OF l2]
  have g3: "grows h2 h3 (\<lambda>ob. concat (map (\<lambda>c. replicate (pair_uses ?P ob (cycle_pd_pairs c))
        (cycle_mip_var c)) ?cycles'))"
    and v3: "altruist_mip_var h3 = altruist_mip_var h2" by simp_all
  have "grows ?h0 h3 (\<lambda>ob. (own_vars (?nch + ?ncy) ?alts ob @
      concat (map (\<lambda>c. replicate (chain_uses ?P ob c) (chain_mip_var c)) ?chains')) @
      concat (map (\<lambda>c. replicate (pair_uses ?P ob (cycle_pd_pairs c)) (cycle_mip_var c)) ?cycles'))"
    by (rule grows_trans [OF grows_trans [OF g1 g2] g3])
  then have g: "grows ?h0 h3 (accumulator self')"
    by (rule grows_cong) (simp add: accumulator_def self')
  show acc: "\<forall>ob \<in> set (?pats @ ?dons @ ?alts). mip_vars h' ob = Some (accumulator self' ob)"
    using g unfolding h' grows_def by (simp add: reset_mip_vars_apply)
  show "\<forall>a \<in> set ?alts. altruist_mip_var h' a = last (own_vars (?nch + ?ncy) ?alts a)"
    unfolding h' v3 v2 using v1 by simp
  from acc have the_acc: "\<And>p. p \<in> set ?pats \<or> p \<in> set ?dons \<or> p \<in> set ?alts \<Longrightarrow>
      the (mip_vars h3 p) = accumulator self' p"
    unfolding h' by auto
  have e1: "map (\<lambda>p. \<lparr>lhs = quicksum (the (mip_vars h3 p)), rel = LE, rhs = 1\<rparr>) (?pats @ ?dons) =
      map (\<lambda>p. \<lparr>lhs = quicksum (accumulator self' p), rel = LE, rhs = 1\<rparr>) (?pats @ ?dons)"
    by (rule map_cong [OF refl]) (auto simp: the_acc)
  have e2: "map (\<lambda>p. \<lparr>lhs = quicksum (the (mip_vars h3 p)), rel = EQ, rhs = 1\<rparr>) ?alts =
      map (\<lambda>p. \<lparr>lhs = quicksum (accumulator self' p), rel = EQ, rhs = 1\<rparr>) ?alts"
    by (rule map_cong [OF refl]) (auto simp: the_acc)
  from post_constrs_eq [OF p1] post_constrs_eq [OF p2] m3 e1 e2
  show "m = Model\<lparr>
           vars := map (\<lambda>c. chain_name (chain_index c)) (chains self) @
             map (\<lambda>c. cycle_name (cycle_index c)) (cycles self) @
             map (\<lambda>a. altruist_name (nhs_id ?P a)) ?alts,
           constrs :=
             map (\<lambda>p. \<lparr>lhs = quicksum (accumulator self' p), rel = LE, rhs = 1\<rparr>) (?pats @ ?dons) @
             map (\<lambda>a. \<lparr>lhs = quicksum (accumulator self' a), rel = EQ, rhs = 1\<rparr>) ?alts\<rparr>"
    by (simp add: Model_def)
qed

subsection \<open>Model construction on a well-typed pool\<close>

lemma map_zip_left:
  "length xs = length ys \<Longrightarrow> (\<And>x y. g (x, y) = k x) \<Longrightarrow> map g (zip xs ys) = map k xs"
  by (induction xs ys rule: list_induct2) auto

lemma map_zip_right:
  "length xs = length ys \<Longrightarrow> (\<And>x y. g (x, y) = y) \<Longrightarrow> map g (zip xs ys) = ys"
  by (induction xs ys rule: list_induct2) auto

lemma number_candidates_simps:
  "pool (number_candidates self) = pool self"
  "length (chains (number_candidates self)) = length (chains self)"
  "length (cycles (number_candidates self)) = length (cycles self)"
  by (simp_all add: number_candidates_def)

lemma number_candidates_maps:
  "map chain_pd_pairs (chains (number_candidates self)) = map chain_pd_pairs (chains self)"
  "map chain_altruist (chains (number_candidates self)) = map chain_altruist (chains self)"
  "map cycle_pd_pairs (cycles (number_candidates self)) = map cycle_pd_pairs (cycles self)"
  by (auto simp: number_candidates_def intro!: map_zip_left)

lemma number_candidates_vars:
  "map chain_mip_var (chains (number_candidates self)) = [0..<length (chains self)]"
  "map cycle_mip_var (cycles (number_candidates self)) =
     [length (chains self)..<length (chains self) + length (cycles self)]"
  by (auto simp: number_candidates_def intro!: map_zip_right)

lemma all_pairs_number_candidates: "all_pairs (number_candidates self) = all_pairs self"
  by (simp add: all_pairs_def number_candidates_maps)

lemma well_typed_number_candidates: "well_typed self \<Longrightarrow> well_typed (number_candidates self)"
proof -
  assume wt: "well_typed self"
  have "list_all (\<lambda>c. chain_altruist c \<in> set (altruists (pool self))) (chains (number_candidates self))
    \<longleftrightarrow> list_all (\<lambda>a. a \<in> set (altruists (pool self))) (map chain_altruist (chains (number_candidates self)))"
    by (simp add: list_all_iff)
  also have "\<dots> \<longleftrightarrow> list_all (\<lambda>c. chain_altruist c \<in> set (altruists (pool self))) (chains self)"
    by (simp add: number_candidates_maps list_all_iff)
  finally show ?thesis
    using wt by (simp add: well_typed_def all_pairs_number_candidates number_candidates_simps)
qed


lemma well_typedD:
  assumes "well_typed self"
  shows "distinct (altruists (pool self))"
    and "\<And>c pd. c \<in> set (chains self) \<Longrightarrow> pd \<in> set (chain_pd_pairs c) \<Longrightarrow>
          patient pd \<in> set (patients (pool self)) \<and> donor pd \<in> set (paired_donors (pool self))"
    and "\<And>c pd. c \<in> set (cycles self) \<Longrightarrow> pd \<in> set (cycle_pd_pairs c) \<Longrightarrow>
          patient pd \<in> set (patients (pool self)) \<and> donor pd \<in> set (paired_donors (pool self))"
    and "\<And>c. c \<in> set (chains self) \<Longrightarrow> chain_altruist c \<in> set (altruists (pool self))"
    and "\<And>p. p \<in> set (patients (pool self)) \<Longrightarrow>
          p \<notin> set (paired_donors (pool self)) \<and> p \<notin> set (altruists (pool self))"
    and "\<And>d. d \<in> set (paired_donors (pool self)) \<Longrightarrow> d \<notin> set (altruists (pool self))"
  using assms by (auto simp: well_typed_def all_pairs_def list_all_iff)

lemma pair_uses_patient:
  "\<forall>pd \<in> set pds. donor pd \<noteq> p \<Longrightarrow>
   pair_uses P p pds = length (filter (\<lambda>pd. patient pd = p) pds)"
  by (induction pds) (auto simp: pair_uses_Cons)

lemma pair_uses_donor:
  "\<forall>pd \<in> set pds. patient pd \<noteq> d \<Longrightarrow>
   pair_uses P d pds =
     (if length (paired_patients P d) > 1 then length (filter (\<lambda>pd. donor pd = d) pds) else 0)"
  by (induction pds) (auto simp: pair_uses_Cons)

lemma pair_uses_none:
  "\<forall>pd \<in> set pds. patient pd \<noteq> a \<and> donor pd \<noteq> a \<Longrightarrow> pair_uses P a pds = 0"
  by (induction pds) (auto simp: pair_uses_Cons)

lemma concat_map_Nil: "(\<And>x. x \<in> set xs \<Longrightarrow> f x = []) \<Longrightarrow> concat (map f xs) = []"
  by (induction xs) auto

lemma concat_map_if: "concat (map (\<lambda>x. if Q x then [f x] else []) xs) = map f (filter Q xs)"
  by (induction xs) auto

lemma accumulator_patient:
  assumes wt: "well_typed self" and p: "p \<in> set (patients (pool self))"
  shows "accumulator self p = candidate_vars self (\<lambda>pd. patient pd = p)"
proof -
  note d = well_typedD [OF wt]
  from d(5) [OF p] have pd: "p \<notin> set (paired_donors (pool self))"
    and pa: "p \<notin> set (altruists (pool self))" by simp_all
  have own: "own_vars (length (chains self) + length (cycles self)) (altruists (pool self)) p = []"
    using pa by (simp add: own_vars_empty)
  have ch: "\<And>c. c \<in> set (chains self) \<Longrightarrow>
      chain_uses (pool self) p c = length (filter (\<lambda>pd. patient pd = p) (chain_pd_pairs c))"
  proof -
    fix c assume c: "c \<in> set (chains self)"
    from d(4) [OF c] pa have "chain_altruist c \<noteq> p" by auto
    moreover from d(2) [OF c] pd have "\<forall>pd \<in> set (chain_pd_pairs c). donor pd \<noteq> p" by auto
    ultimately show "chain_uses (pool self) p c =
        length (filter (\<lambda>pd. patient pd = p) (chain_pd_pairs c))"
      by (simp add: chain_uses_def pair_uses_patient)
  qed
  have cy: "\<And>c. c \<in> set (cycles self) \<Longrightarrow>
      pair_uses (pool self) p (cycle_pd_pairs c) =
      length (filter (\<lambda>pd. patient pd = p) (cycle_pd_pairs c))"
  proof -
    fix c assume c: "c \<in> set (cycles self)"
    from d(3) [OF c] pd have "\<forall>pd \<in> set (cycle_pd_pairs c). donor pd \<noteq> p" by auto
    then show "pair_uses (pool self) p (cycle_pd_pairs c) =
        length (filter (\<lambda>pd. patient pd = p) (cycle_pd_pairs c))"
      by (rule pair_uses_patient)
  qed
  show ?thesis
    unfolding accumulator_def candidate_vars_def own
    by (simp add: ch cy cong: map_cong)
qed

lemma accumulator_donor:
  assumes wt: "well_typed self" and dn: "d \<in> set (paired_donors (pool self))"
  shows "accumulator self d =
     (if length (paired_patients (pool self) d) > 1
      then candidate_vars self (\<lambda>pd. donor pd = d) else [])"
proof -
  note w = well_typedD [OF wt]
  from w(6) [OF dn] have da: "d \<notin> set (altruists (pool self))" .
  from w(5) dn have dp: "d \<notin> set (patients (pool self))" by auto
  have own: "own_vars (length (chains self) + length (cycles self)) (altruists (pool self)) d = []"
    using da by (simp add: own_vars_empty)
  have ch: "\<And>c. c \<in> set (chains self) \<Longrightarrow>
      chain_uses (pool self) d c =
      (if length (paired_patients (pool self) d) > 1
       then length (filter (\<lambda>pd. donor pd = d) (chain_pd_pairs c)) else 0)"
  proof -
    fix c assume c: "c \<in> set (chains self)"
    from w(4) [OF c] da have "chain_altruist c \<noteq> d" by auto
    moreover from w(2) [OF c] dp have "\<forall>pd \<in> set (chain_pd_pairs c). patient pd \<noteq> d" by auto
    ultimately show "chain_uses (pool self) d c =
      (if length (paired_patients (pool self) d) > 1
       then length (filter (\<lambda>pd. donor pd = d) (chain_pd_pairs c)) else 0)"
      by (simp add: chain_uses_def pair_uses_donor)
  qed
  have cy: "\<And>c. c \<in> set (cycles self) \<Longrightarrow>
      pair_uses (pool self) d (cycle_pd_pairs c) =
      (if length (paired_patients (pool self) d) > 1
       then length (filter (\<lambda>pd. donor pd = d) (cycle_pd_pairs c)) else 0)"
  proof -
    fix c assume c: "c \<in> set (cycles self)"
    from w(3) [OF c] dp have "\<forall>pd \<in> set (cycle_pd_pairs c). patient pd \<noteq> d" by auto
    then show "pair_uses (pool self) d (cycle_pd_pairs c) =
      (if length (paired_patients (pool self) d) > 1
       then length (filter (\<lambda>pd. donor pd = d) (cycle_pd_pairs c)) else 0)"
      by (rule pair_uses_donor)
  qed
  show ?thesis
    unfolding accumulator_def candidate_vars_def own
    by (simp add: ch cy concat_map_Nil cong: map_cong)
qed

lemma accumulator_altruist:
  assumes wt: "well_typed self" and a: "a \<in> set (altruists (pool self))"
  shows "accumulator self a =
     own_vars (length (chains self) + length (cycles self)) (altruists (pool self)) a @
     map chain_mip_var (filter (\<lambda>c. chain_altruist c = a) (chains self))"
proof -
  note w = well_typedD [OF wt]
  from w(5) a have ap: "a \<notin> set (patients (pool self))" by auto
  from w(6) a have ad: "a \<notin> set (paired_donors (pool self))" by auto
  have ch: "\<And>c. c \<in> set (chains self) \<Longrightarrow>
      replicate (chain_uses (pool self) a c) (chain_mip_var c) =
      (if chain_altruist c = a then [chain_mip_var c] else [])"
  proof -
    fix c assume c: "c \<in> set (chains self)"
    from w(2) [OF c] ap ad
    have "\<forall>pd \<in> set (chain_pd_pairs c). patient pd \<noteq> a \<and> donor pd \<noteq> a" by auto
    then show "replicate (chain_uses (pool self) a c) (chain_mip_var c) =
      (if chain_altruist c = a then [chain_mip_var c] else [])"
      by (simp add: chain_uses_def pair_uses_none)
  qed
  have cy: "\<And>c. c \<in> set (cycles self) \<Longrightarrow> pair_uses (pool self) a (cycle_pd_pairs c) = 0"
  proof -
    fix c assume c: "c \<in> set (cycles self)"
    from w(3) [OF c] ap ad
    have "\<forall>pd \<in> set (cycle_pd_pairs c). patient pd \<noteq> a \<and> donor pd \<noteq> a" by auto
    then show "pair_uses (pool self) a (cycle_pd_pairs c) = 0" by (rule pair_uses_none)
  qed
  have "concat (map (\<lambda>c. replicate (chain_uses (pool self) a c) (chain_mip_var c)) (chains self)) =
      concat (map (\<lambda>c. if chain_altruist c = a then [chain_mip_var c] else []) (chains self))"
    by (simp add: ch cong: map_cong)
  then show ?thesis
    unfolding accumulator_def by (simp add: concat_map_if cy concat_map_Nil)
qed


lemma append_mip_vars_ok:
  "p \<in> dom (mip_vars h) \<Longrightarrow> \<exists>h'. append_mip_vars p v h = Inr h'"
  by (auto simp: append_mip_vars_def)

lemma grows_dom: "grows h h' L \<Longrightarrow> dom (mip_vars h') = dom (mip_vars h)"
  by (auto simp: grows_def dom_def)

lemma add_var_ok:
  "patient ` set pds \<union> donor ` set pds \<subseteq> dom (mip_vars h) \<Longrightarrow>
   \<exists>h'. add_var_to_patients_and_donors P pds v h = Inr h'"
proof (induction pds arbitrary: h)
  case Nil
  show ?case by simp
next
  case (Cons pd pds)
  from Cons.prems have "patient pd \<in> dom (mip_vars h)" by simp
  from append_mip_vars_ok [OF this, of v]
  obtain h1 where a1: "append_mip_vars (patient pd) v h = Inr h1" by auto
  note g1 = grows_dom [OF append_mip_vars_grows(1) [OF a1]]
  show ?case
  proof (cases "length (paired_patients P (donor pd)) > 1")
    case True
    from Cons.prems have "donor pd \<in> dom (mip_vars h1)" unfolding g1 by simp
    from append_mip_vars_ok [OF this, of v]
    obtain h2 where a2: "append_mip_vars (donor pd) v h1 = Inr h2" by auto
    note g2 = grows_dom [OF append_mip_vars_grows(1) [OF a2]]
    from Cons.prems have "patient ` set pds \<union> donor ` set pds \<subseteq> dom (mip_vars h2)"
      unfolding g2 g1 by simp
    from Cons.IH [OF this] a1 a2 True show ?thesis by simp
  next
    case False
    from Cons.prems have "patient ` set pds \<union> donor ` set pds \<subseteq> dom (mip_vars h1)"
      unfolding g1 by simp
    from Cons.IH [OF this] a1 False show ?thesis by simp
  qed
qed

lemma link_cycles_ok:
  "(\<Union>c \<in> set cs. patient ` set (cycle_pd_pairs c) \<union> donor ` set (cycle_pd_pairs c))
     \<subseteq> dom (mip_vars h) \<Longrightarrow>
   \<exists>h'. link_cycles P cs h = Inr h'"
proof (induction cs arbitrary: h)
  case Nil
  show ?case by simp
next
  case (Cons c cs)
  from Cons.prems have "patient ` set (cycle_pd_pairs c) \<union> donor ` set (cycle_pd_pairs c)
      \<subseteq> dom (mip_vars h)" by simp
  from add_var_ok [OF this, of P "cycle_mip_var c"]
  obtain h1 where a1: "add_var_to_patients_and_donors P (cycle_pd_pairs c) (cycle_mip_var c) h = Inr h1"
    by auto
  from add_var_grows [OF a1] have g1: "dom (mip_vars h1) = dom (mip_vars h)"
    by (blast dest: grows_dom)
  from Cons.prems have "(\<Union>c \<in> set cs. patient ` set (cycle_pd_pairs c) \<union>
      donor ` set (cycle_pd_pairs c)) \<subseteq> dom (mip_vars h1)"
    unfolding g1 by simp
  from Cons.IH [OF this] a1 show ?case by simp
qed

lemma link_chains_ok:
  "(\<Union>c \<in> set cs. {chain_altruist c} \<union> patient ` set (chain_pd_pairs c) \<union>
      donor ` set (chain_pd_pairs c)) \<subseteq> dom (mip_vars h) \<Longrightarrow>
   \<exists>h'. link_chains P cs h = Inr h'"
proof (induction cs arbitrary: h)
  case Nil
  show ?case by simp
next
  case (Cons c cs)
  from Cons.prems have "chain_altruist c \<in> dom (mip_vars h)" by simp
  from append_mip_vars_ok [OF this, of "chain_mip_var c"] obtain h1 where
    a0: "append_mip_vars (chain_altruist c) (chain_mip_var c) h = Inr h1" by auto
  note g0 = grows_dom [OF append_mip_vars_grows(1) [OF a0]]
  from Cons.prems have "patient ` set (chain_pd_pairs c) \<union> donor ` set (chain_pd_pairs c)
      \<subseteq> dom (mip_vars h1)" unfolding g0 by simp
  from add_var_ok [OF this, of P "chain_mip_var c"] obtain h2 where
    a1: "add_var_to_patients_and_donors P (chain_pd_pairs c) (chain_mip_var c) h1 = Inr h2"
    by auto
  from add_var_grows [OF a1] have g1: "dom (mip_vars h2) = dom (mip_vars h1)"
    by (blast dest: grows_dom)
  from Cons.prems have "(\<Union>c \<in> set cs. {chain_altruist c} \<union> patient ` set (chain_pd_pairs c) \<union>
      donor ` set (chain_pd_pairs c)) \<subseteq> dom (mip_vars h2)"
    unfolding g1 g0 by simp
  from Cons.IH [OF this] a0 a1 show ?case by simp
qed

lemma create_altruist_vars_ok:
  "set as \<subseteq> dom (mip_vars h) \<Longrightarrow> \<exists>h' m'. create_altruist_vars P as m h = Inr (h', m')"
proof (induction as arbitrary: m h)
  case Nil
  show ?case by simp
next
  case (Cons a as)
  let ?n = "length (vars m)"
  let ?h0 = "h\<lparr>altruist_mip_var := (altruist_mip_var h)(a := ?n)\<rparr>"
  from Cons.prems have "a \<in> dom (mip_vars ?h0)" by simp
  from append_mip_vars_ok [OF this, of ?n] obtain h1 where
    a1: "append_mip_vars a ?n ?h0 = Inr h1" by auto
  have g1: "dom (mip_vars h1) = dom (mip_vars h)"
    using grows_dom [OF append_mip_vars_grows(1) [OF a1]] by simp
  from Cons.prems have "set as \<subseteq> dom (mip_vars h1)" unfolding g1 by simp
  from Cons.IH [OF this] a1 show ?case by (simp add: addVar_def)
qed

lemma create_ok:
  assumes wt: "well_typed self"
  shows "\<exists>self' h' m. create_vars_and_constraints self Model (patients (pool self))
       (paired_donors (pool self)) (altruists (pool self)) h = Inr (self', h', m)"
proof -
  let ?P = "pool self"
  let ?pats = "patients ?P" and ?dons = "paired_donors ?P" and ?alts = "altruists ?P"
  let ?D = "set (?pats @ ?dons @ ?alts)"
  let ?h0 = "reset_mip_vars (?pats @ ?dons @ ?alts) h"
  let ?self' = "number_candidates self"
  note w = well_typedD [OF well_typed_number_candidates [OF wt], unfolded number_candidates_simps]
  let ?m1 = "Model\<lparr>vars := map (\<lambda>c. chain_name (chain_index c)) (chains self)\<rparr>"
  let ?m2 = "Model\<lparr>vars := map (\<lambda>c. chain_name (chain_index c)) (chains self) @
      map (\<lambda>c. cycle_name (cycle_index c)) (cycles self)\<rparr>"
  have c1: "create_chain_vars (chains self) Model = (chains ?self', ?m1)"
    by (simp add: create_chain_vars_eq number_candidates_def Model_def)
  have c2: "create_cycle_vars (cycles self) ?m1 = (cycles ?self', ?m2)"
    by (simp add: create_cycle_vars_eq number_candidates_def Model_def)
  have d0: "?D \<subseteq> dom (mip_vars ?h0)"
    by (auto simp: reset_mip_vars_apply)
  then have "set ?alts \<subseteq> dom (mip_vars ?h0)" by simp
  from create_altruist_vars_ok [OF this, of ?P ?m2] obtain h1 m3 where
    a: "create_altruist_vars ?P ?alts ?m2 ?h0 = Inr (h1, m3)" by auto
  from create_altruist_vars_grows [OF a] have g1: "dom (mip_vars h1) = dom (mip_vars ?h0)"
    by (blast dest: grows_dom)
  have "(\<Union>c \<in> set (chains ?self'). {chain_altruist c} \<union> patient ` set (chain_pd_pairs c) \<union>
      donor ` set (chain_pd_pairs c)) \<subseteq> ?D"
    using w(2,4) by auto
  with d0 have "(\<Union>c \<in> set (chains ?self'). {chain_altruist c} \<union> patient ` set (chain_pd_pairs c) \<union>
      donor ` set (chain_pd_pairs c)) \<subseteq> dom (mip_vars h1)"
    unfolding g1 by (rule subset_trans [rotated])
  from link_chains_ok [OF this, of ?P] obtain h2 where
    l1: "link_chains ?P (chains ?self') h1 = Inr h2" by auto
  from link_chains_grows [OF l1] have g2: "dom (mip_vars h2) = dom (mip_vars h1)"
    by (blast dest: grows_dom)
  have "(\<Union>c \<in> set (cycles ?self'). patient ` set (cycle_pd_pairs c) \<union>
      donor ` set (cycle_pd_pairs c)) \<subseteq> ?D"
    using w(3) by auto
  with d0 have "(\<Union>c \<in> set (cycles ?self'). patient ` set (cycle_pd_pairs c) \<union>
      donor ` set (cycle_pd_pairs c)) \<subseteq> dom (mip_vars h2)"
    unfolding g2 g1 by (rule subset_trans [rotated])
  from link_cycles_ok [OF this, of ?P] obtain h3 where
    l2: "link_cycles ?P (cycles ?self') h2 = Inr h3" by auto
  from link_cycles_grows [OF l2] have g3: "dom (mip_vars h3) = dom (mip_vars h2)"
    by (blast dest: grows_dom)
  from d0 have d3: "?D \<subseteq> dom (mip_vars h3)" unfolding g3 g2 g1 .
  then have "\<forall>p \<in> set (?pats @ ?dons). mip_vars h3 p \<noteq> None" by auto
  note p1 = post_constrs_Inr [OF this, of LE m3]
  from d3 have "\<forall>p \<in> set ?alts. mip_vars h3 p \<noteq> None" by auto
  note p2 = post_constrs_Inr [OF this, of EQ]
  show ?thesis
    using c1 c2 a l1 l2 p1 p2 by (simp add: create_vars_and_constraints_def Let_def)
qed


lemma upt_add_Suc: "[n..<n + Suc k] = n # [Suc n..<Suc n + k]"
  by (subst upt_rec) simp

lemma own_vars_last_distinct:
  "distinct as \<Longrightarrow> map (\<lambda>a. last (own_vars n as a)) as = [n..<n + length as]"
proof (induction as arbitrary: n)
  case Nil
  show ?case by simp
next
  case (Cons a as)
  from Cons.prems have a: "a \<notin> set as" and d: "distinct as" by simp_all
  from a have "own_vars (Suc n) as a = []" by (simp add: own_vars_empty)
  then have hd: "last (own_vars n (a # as) a) = n" by simp
  have "map (\<lambda>b. last (own_vars n (a # as) b)) as = map (\<lambda>b. last (own_vars (Suc n) as b)) as"
    by (rule map_cong [OF refl]) (use a in auto)
  also have "\<dots> = [Suc n..<Suc n + length as]" by (rule Cons.IH [OF d])
  finally have tl: "map (\<lambda>b. last (own_vars n (a # as) b)) as = [Suc n..<Suc n + length as]" .
  show ?case unfolding list.map(2) hd tl by (simp add: upt_conv_Cons del: upt_Suc)
qed

lemma own_vars_single:
  assumes "distinct as" "a \<in> set as"
  shows "own_vars n as a = [last (own_vars n as a)]"
proof -
  from own_vars_distinct [OF assms] have "length (own_vars n as a) = 1" .
  then obtain v where "own_vars n as a = [v]"
    by (cases "own_vars n as a") auto
  then show ?thesis by simp
qed

lemma construction_on_well_typed:
  assumes wt: "well_typed self"
  shows "\<exists>self' h' m.
     create_vars_and_constraints self Model (patients (pool self))
       (paired_donors (pool self)) (altruists (pool self)) h = Inr (self', h', m) \<and>
     self' = number_candidates self \<and>
     vars m = map (\<lambda>c. chain_name (chain_index c)) (chains self) @
       map (\<lambda>c. cycle_name (cycle_index c)) (cycles self) @
       map (\<lambda>a. altruist_name (nhs_id (pool self) a)) (altruists (pool self)) \<and>
     map chain_mip_var (chains self') = [0..<length (chains self)] \<and>
     map cycle_mip_var (cycles self') =
       [length (chains self)..<length (chains self) + length (cycles self)] \<and>
     map (altruist_mip_var h') (altruists (pool self)) =
       [length (chains self) + length (cycles self)..<
        length (chains self) + length (cycles self) + length (altruists (pool self))] \<and>
     constrs m =
       map (\<lambda>p. \<lparr>lhs = quicksum (candidate_vars self' (\<lambda>pd. patient pd = p)),
                  rel = LE, rhs = 1\<rparr>) (patients (pool self)) @
       map (\<lambda>d. \<lparr>lhs = quicksum (if length (paired_patients (pool self) d) > 1
                    then candidate_vars self' (\<lambda>pd. donor pd = d) else []),
                  rel = LE, rhs = 1\<rparr>) (paired_donors (pool self)) @
       map (\<lambda>a. \<lparr>lhs = quicksum (altruist_mip_var h' a #
                    map chain_mip_var (filter (\<lambda>c. chain_altruist c = a) (chains self'))),
                  rel = EQ, rhs = 1\<rparr>) (altruists (pool self)) \<and>
     (\<forall>ob \<in> set (patients (pool self) @ paired_donors (pool self) @ altruists (pool self)).
        mip_vars h' ob = Some (accumulator self' ob))"
proof -
  let ?P = "pool self"
  let ?pats = "patients ?P" and ?dons = "paired_donors ?P" and ?alts = "altruists ?P"
  let ?n = "length (chains self) + length (cycles self)"
  from create_ok [OF wt, of h] obtain self' h' m where
    built: "create_vars_and_constraints self Model ?pats ?dons ?alts h = Inr (self', h', m)"
    by blast
  note ch = create_char [OF built]
  from ch(1) have self': "self' = number_candidates self" by (simp add: number_candidates_def)
  from wt have wt': "well_typed self'" unfolding self' by (rule well_typed_number_candidates)
  have P': "pool self' = ?P" and n': "length (chains self') + length (cycles self') = ?n"
    by (simp_all add: self' number_candidates_simps)
  note w = well_typedD [OF wt]
  from ch(2) have vars: "vars m = map (\<lambda>c. chain_name (chain_index c)) (chains self) @
       map (\<lambda>c. cycle_name (cycle_index c)) (cycles self) @
       map (\<lambda>a. altruist_name (nhs_id ?P a)) ?alts"
    by simp
  have "map (altruist_mip_var h') ?alts = map (\<lambda>a. last (own_vars ?n ?alts a)) ?alts"
    by (rule map_cong [OF refl]) (use ch(4) in auto)
  then have avars: "map (altruist_mip_var h') ?alts = [?n..<?n + length ?alts]"
    by (simp add: own_vars_last_distinct [OF w(1)])
  have e1: "map (\<lambda>p. \<lparr>lhs = quicksum (accumulator self' p), rel = LE, rhs = 1\<rparr>) ?pats =
      map (\<lambda>p. \<lparr>lhs = quicksum (candidate_vars self' (\<lambda>pd. patient pd = p)),
                  rel = LE, rhs = 1\<rparr>) ?pats"
    by (rule map_cong [OF refl]) (simp add: accumulator_patient [OF wt'] P')
  have e2: "map (\<lambda>p. \<lparr>lhs = quicksum (accumulator self' p), rel = LE, rhs = 1\<rparr>) ?dons =
      map (\<lambda>d. \<lparr>lhs = quicksum (if length (paired_patients ?P d) > 1
                    then candidate_vars self' (\<lambda>pd. donor pd = d) else []),
                  rel = LE, rhs = 1\<rparr>) ?dons"
    by (rule map_cong [OF refl]) (simp add: accumulator_donor [OF wt'] P')
  have e3: "map (\<lambda>a. \<lparr>lhs = quicksum (accumulator self' a), rel = EQ, rhs = 1\<rparr>) ?alts =
      map (\<lambda>a. \<lparr>lhs = quicksum (altruist_mip_var h' a #
                    map chain_mip_var (filter (\<lambda>c. chain_altruist c = a) (chains self'))),
                  rel = EQ, rhs = 1\<rparr>) ?alts"
  proof (rule map_cong [OF refl])
    fix a assume a: "a \<in> set ?alts"
    from ch(4) a have "altruist_mip_var h' a = last (own_vars ?n ?alts a)" by simp
    with own_vars_single [OF w(1) a, of ?n]
    have "own_vars ?n ?alts a = [altruist_mip_var h' a]" by simp
    with accumulator_altruist [OF wt', unfolded P' n', OF a]
    show "\<lparr>lhs = quicksum (accumulator self' a), rel = EQ, rhs = 1\<rparr> =
        \<lparr>lhs = quicksum (altruist_mip_var h' a #
              map chain_mip_var (filter (\<lambda>c. chain_altruist c = a) (chains self'))),
          rel = EQ, rhs = 1\<rparr>"
      by simp
  qed
  from ch(2) have "constrs m =
      map (\<lambda>p. \<lparr>lhs = quicksum (accumulator self' p), rel = LE, rhs = 1\<rparr>) ?pats @
      map (\<lambda>p. \<lparr>lhs = quicksum (accumulator self' p), rel = LE, rhs = 1\<rparr>) ?dons @
      map (\<lambda>a. \<lparr>lhs = quicksum (accumulator self' a), rel = EQ, rhs = 1\<rparr>) ?alts"
    by simp
  then have constrs: "constrs m =
       map (\<lambda>p. \<lparr>lhs = quicksum (candidate_vars self' (\<lambda>pd. patient pd = p)),
                  rel = LE, rhs = 1\<rparr>) ?pats @
       map (\<lambda>d. \<lparr>lhs = quicksum (if length (paired_patients ?P d) > 1
                    then candidate_vars self' (\<lambda>pd. donor pd = d) else []),
                  rel = LE, rhs = 1\<rparr>) ?dons @
       map (\<lambda>a. \<lparr>lhs = quicksum (altruist_mip_var h' a #
                    map chain_mip_var (filter (\<lambda>c. chain_altruist c = a) (chains self'))),
                  rel = EQ, rhs = 1\<rparr>) ?alts"
    unfolding e1 e2 e3 .
  have cv: "map chain_mip_var (chains self') = [0..<length (chains self)]"
    and yv: "map cycle_mip_var (cycles self') =
       [length (chains self)..<length (chains self) + length (cycles self)]"
    by (simp_all add: self' number_candidates_vars)
  show ?thesis
    using built self' vars cv yv avars constrs ch(3) by blast
qed

text \<open>
  C6 (amended). On a well-typed pool, whatever the accumulators held before, model
  construction succeeds and creates one variable per chain, per cycle and per altruist,
  in this order; it posts one constraint \<open>\<le> 1\<close> per patient over the variables of the
  candidates that hold the patient, one constraint \<open>\<le> 1\<close> per paired donor, every one
  of them, over the variables of the candidates that hold the donor when the donor has
  more than one paired patient and over the empty sum otherwise, and one constraint
  \<open>= 1\<close> per altruist over its own variable and the variables of the chains it starts;
  and every accumulator of the pool is rebuilt from the empty list.
\<close>

theorem C6_model_construction:
  assumes wt: "well_typed self"
  shows "\<exists>self' h' m.
     create_vars_and_constraints self Model (patients (pool self))
       (paired_donors (pool self)) (altruists (pool self)) h = Inr (self', h', m) \<and>
     self' = number_candidates self \<and>
     vars m = map (\<lambda>c. chain_name (chain_index c)) (chains self) @
       map (\<lambda>c. cycle_name (cycle_index c)) (cycles self) @
       map (\<lambda>a. altruist_name (nhs_id (pool self) a)) (altruists (pool self)) \<and>
     map chain_mip_var (chains self') = [0..<length (chains self)] \<and>
     map cycle_mip_var (cycles self') =
       [length (chains self)..<length (chains self) + length (cycles self)] \<and>
     map (altruist_mip_var h') (altruists (pool self)) =
       [length (chains self) + length (cycles self)..<
        length (chains self) + length (cycles self) + length (altruists (pool self))] \<and>
     constrs m =
       map (\<lambda>p. \<lparr>lhs = quicksum (candidate_vars self' (\<lambda>pd. patient pd = p)),
                  rel = LE, rhs = 1\<rparr>) (patients (pool self)) @
       map (\<lambda>d. \<lparr>lhs = quicksum (if length (paired_patients (pool self) d) > 1
                    then candidate_vars self' (\<lambda>pd. donor pd = d) else []),
                  rel = LE, rhs = 1\<rparr>) (paired_donors (pool self)) @
       map (\<lambda>a. \<lparr>lhs = quicksum (altruist_mip_var h' a #
                    map chain_mip_var (filter (\<lambda>c. chain_altruist c = a) (chains self'))),
                  rel = EQ, rhs = 1\<rparr>) (altruists (pool self)) \<and>
     (\<forall>ob \<in> set (patients (pool self) @ paired_donors (pool self) @ altruists (pool self)).
        mip_vars h' ob = Some (accumulator self' ob))"
  using wt by (rule construction_on_well_typed)


lemmas construction_defs =
  create_vars_and_constraints_def Model_def addVar_def addConstr_def quicksum_def
  append_mip_vars_def Let_def

theorem C6_witness:
  "(case create_vars_and_constraints optimiser_A Model (patients (pool optimiser_A))
       (paired_donors (pool optimiser_A)) (altruists (pool optimiser_A)) fresh_heap of
      Inl e \<Rightarrow> None
    | Inr (self', h', m) \<Rightarrow>
        Some (vars m, constrs m, map chain_mip_var (chains self'), map (mip_vars h') [1, 2, 0])) =
   Some ([chain_name 0, altruist_name 7],
     [\<lparr>lhs = [(0, 1)], rel = LE, rhs = 1\<rparr>, \<lparr>lhs = [], rel = LE, rhs = 1\<rparr>,
      \<lparr>lhs = [(1, 1), (0, 1)], rel = EQ, rhs = 1\<rparr>],
     [0], [Some [0], Some [], Some [1, 0]])"
proof -
  have wt: "well_typed optimiser_A"
    by (simp add: well_typed_def all_pairs_def pool_A_defs)
  from C6_model_construction [OF wt, of fresh_heap] obtain self' h' m where
    built: "create_vars_and_constraints optimiser_A Model (patients (pool optimiser_A))
       (paired_donors (pool optimiser_A)) (altruists (pool optimiser_A)) fresh_heap =
       Inr (self', h', m)"
    and self': "self' = number_candidates optimiser_A"
    and vars: "vars m = map (\<lambda>c. chain_name (chain_index c)) (chains optimiser_A) @
       map (\<lambda>c. cycle_name (cycle_index c)) (cycles optimiser_A) @
       map (\<lambda>a. altruist_name (nhs_id (pool optimiser_A) a)) (altruists (pool optimiser_A))"
    and avars: "map (altruist_mip_var h') (altruists (pool optimiser_A)) =
       [length (chains optimiser_A) + length (cycles optimiser_A)..<
        length (chains optimiser_A) + length (cycles optimiser_A) +
        length (altruists (pool optimiser_A))]"
    and constrs: "constrs m =
       map (\<lambda>p. \<lparr>lhs = quicksum (candidate_vars self' (\<lambda>pd. patient pd = p)),
                  rel = LE, rhs = 1\<rparr>) (patients (pool optimiser_A)) @
       map (\<lambda>d. \<lparr>lhs = quicksum (if length (paired_patients (pool optimiser_A) d) > 1
                    then candidate_vars self' (\<lambda>pd. donor pd = d) else []),
                  rel = LE, rhs = 1\<rparr>) (paired_donors (pool optimiser_A)) @
       map (\<lambda>a. \<lparr>lhs = quicksum (altruist_mip_var h' a #
                    map chain_mip_var (filter (\<lambda>c. chain_altruist c = a) (chains self'))),
                  rel = EQ, rhs = 1\<rparr>) (altruists (pool optimiser_A))"
    and acc: "\<forall>ob \<in> set (patients (pool optimiser_A) @ paired_donors (pool optimiser_A) @
          altruists (pool optimiser_A)). mip_vars h' ob = Some (accumulator self' ob)"
    by blast
  from avars have a0: "altruist_mip_var h' 0 = 1" by (simp add: pool_A_defs)
  have "vars m = [chain_name 0, altruist_name 7]"
    unfolding vars by (simp add: pool_A_defs)
  moreover have "constrs m = [\<lparr>lhs = [(0, 1)], rel = LE, rhs = 1\<rparr>, \<lparr>lhs = [], rel = LE, rhs = 1\<rparr>,
      \<lparr>lhs = [(1, 1), (0, 1)], rel = EQ, rhs = 1\<rparr>]"
    unfolding constrs self'
    by (simp add: a0 pool_A_defs number_candidates_def candidate_vars_def quicksum_def)
  moreover have "map chain_mip_var (chains self') = [0]"
    unfolding self' by (simp add: pool_A_defs number_candidates_def)
  moreover have "map (mip_vars h') [1, 2, 0] = [Some [0], Some [], Some [1, 0]]"
    using acc unfolding self'
    by (simp add: pool_A_defs number_candidates_def accumulator_def chain_uses_def pair_uses_def)
  ultimately show ?thesis using built by simp
qed

text \<open>
  The claim as stated, a constraint for a donor only when the donor has more than one
  paired patient, fails on pool A: donor 2 has one paired patient and a constraint
  \<open>0 \<le> 1\<close> is posted for it.
\<close>

theorem C6_counterexample:
  "paired_donors (pool optimiser_A) = [2] \<and>
   length (paired_patients (pool optimiser_A) 2) = 1 \<and>
   (case create_vars_and_constraints optimiser_A Model (patients (pool optimiser_A))
       (paired_donors (pool optimiser_A)) (altruists (pool optimiser_A)) fresh_heap of
      Inl e \<Rightarrow> False
    | Inr (self', h', m) \<Rightarrow>
        constrs m \<noteq> constrs_as_claimed self' h' \<and>
        constrs m = [\<lparr>lhs = [(0, 1)], rel = LE, rhs = 1\<rparr>, \<lparr>lhs = [], rel = LE, rhs = 1\<rparr>,
          \<lparr>lhs = [(1, 1), (0, 1)], rel = EQ, rhs = 1\<rparr>] \<and>
        constrs_as_claimed self' h' = [\<lparr>lhs = [(0, 1)], rel = LE, rhs = 1\<rparr>,
          \<lparr>lhs = [(1, 1), (0, 1)], rel = EQ, rhs = 1\<rparr>])"
  by (simp add: construction_defs pool_A_defs constrs_as_claimed_def candidate_vars_def)

subsection \<open>The loop: an invariant rule and the log of solves\<close>

lemma enum_loop_rule:
  assumes ret: "enum_loop S self h crits mx s n b = Some r"
    and init: "I s n b"
    and step: "\<And>s n b s' n' b'. I s n b \<Longrightarrow>
        enum_step S self h crits mx s n b = Continue s' n' b' \<Longrightarrow> I s' n' b'"
    and stop: "\<And>s n b r. I s n b \<Longrightarrow> enum_step S self h crits mx s n b = Stop r \<Longrightarrow> Q r"
  shows "Q r"
proof -
  have "S = S \<and> self = self \<and> h = h \<and> crits = crits \<and> mx = mx \<longrightarrow> I s n b \<longrightarrow> Q r"
  proof (rule enum_loop.raw_induct [where P = "\<lambda>S' self' h' crits' mx' s n b r.
      S' = S \<and> self' = self \<and> h' = h \<and> crits' = crits \<and> mx' = mx \<longrightarrow> I s n b \<longrightarrow> Q r", OF _ ret])
    fix f S' self' h' crits' mx' s n b r
    assume IH: "\<And>S' self' h' crits' mx' s n b r. f S' self' h' crits' mx' s n b = Some r \<Longrightarrow>
        S' = S \<and> self' = self \<and> h' = h \<and> crits' = crits \<and> mx' = mx \<longrightarrow> I s n b \<longrightarrow> Q r"
      and eq: "(case enum_step S' self' h' crits' mx' s n b of
           Stop r \<Rightarrow> Some r
         | Continue s' n' best' \<Rightarrow> f S' self' h' crits' mx' s' n' best') = Some r"
    show "S' = S \<and> self' = self \<and> h' = h \<and> crits' = crits \<and> mx' = mx \<longrightarrow> I s n b \<longrightarrow> Q r"
    proof (intro impI)
      assume par: "S' = S \<and> self' = self \<and> h' = h \<and> crits' = crits \<and> mx' = mx" and inv: "I s n b"
      show "Q r"
      proof (cases "enum_step S self h crits mx s n b")
        case (Stop r')
        with eq par have "r' = r" by simp
        with Stop stop [OF inv] show ?thesis by simp
      next
        case (Continue s' n' b')
        with eq par have "f S self h crits mx s' n' b' = Some r" by simp
        moreover from step [OF inv Continue] have "I s' n' b'" .
        ultimately show ?thesis using IH by blast
      qed
    qed
  qed
  with init show ?thesis by simp
qed


lemma optimise_facts:
  assumes "optimise S self h c s = (z, st, s1)"
  shows "solves s1 = solves s @ [model s1]"
    and "printed s1 = printed s"
    and "vars (model s1) = vars (model s)"
    and "constrs (model s1) = constrs (model s)"
    and "objective (model s1) = criterion_expr self h c"
    and "modelSense (model s1) = (if sense c = ''MAX'' then MAXIMIZE else MINIMIZE)"
    and "z = criterion_expr self h c"
    and "st = status (model s1)"
  using assms by (auto simp: optimise_def optimize_def Let_def split: prod.splits)

lemma optimise_sound:
  assumes "optimise S self h c s = (z, OPTIMAL, s1)" and "sound S"
  shows "feasible (model s1) (X (model s1))"
    and "objVal (model s1) = eval (X (model s1)) (objective (model s1))"
proof -
  let ?m2 = "(model s)\<lparr>objective := criterion_expr self h c,
      modelSense := (if sense c = ''MAX'' then MAXIMIZE else MINIMIZE)\<rparr>"
  obtain st v x where sm: "S ?m2 = (st, v, x)" by (cases "S ?m2")
  with assms(1) have st: "st = OPTIMAL" and s1: "model s1 = ?m2\<lparr>status := st, objVal := v, X := x\<rparr>"
    by (auto simp: optimise_def optimize_def Let_def)
  from assms(2) sm st have "feasible ?m2 x \<and> v = eval x (objective ?m2)"
    unfolding sound_def by blast
  then show "feasible (model s1) (X (model s1))"
    and "objVal (model s1) = eval (X (model s1)) (objective (model s1))"
    by (simp_all add: s1 feasible_def)
qed

lemma kept_optimise:
  assumes "kept c m i s" and "optimise S self h c' s = (z, st, s1)"
  shows "kept c m i s1"
proof -
  note f = optimise_facts [OF assms(2)]
  from assms(1) show ?thesis
    unfolding kept_def f(1) f(4) by (auto simp: nth_append f(4))
qed

lemma kept_addConstr:
  "kept c m i s \<Longrightarrow> kept c m i (s\<lparr>model := addConstr c' (model s)\<rparr>)"
  by (simp add: kept_def addConstr_def)

lemma kept_printed: "kept c m i (s\<lparr>printed := p\<rparr>) = kept c m i s"
  by (simp add: kept_def)

lemma kept_new:
  assumes "optimise S self h c' s = (z, st, s1)"
  shows "kept c (model s1) (length (solves s)) (s1\<lparr>model := addConstr c (model s1)\<rparr>)"
  unfolding kept_def using optimise_facts(1) [OF assms] by (auto simp: addConstr_def)

lemma kept_lex_ranks:
  "kept c m i s \<Longrightarrow> kept c m i (ranks_session (lex_ranks S self h cs s))"
proof (induction cs arbitrary: s)
  case Nil
  then show ?case by (simp add: ranks_session_def)
next
  case (Cons c' cs)
  obtain z st s1 where o: "optimise S self h c' s = (z, st, s1)"
    by (cases "optimise S self h c' s")
  from kept_optimise [OF Cons.prems o] have k1: "kept c m i s1" .
  show ?case
  proof (cases "st = OPTIMAL")
    case True
    from k1 have "kept c m i (s1\<lparr>model := enforce_objective (model s1) z (objVal (model s1)) (sense c')\<rparr>)"
      by (simp add: enforce_objective_def kept_addConstr)
    from Cons.IH [OF this] o True show ?thesis by simp
  next
    case False
    with o k1 show ?thesis by (simp add: ranks_session_def)
  qed
qed

lemma lex_ranks_floor:
  assumes "k < length cs"
    and "length (solves s) + k < length (solves (ranks_session (lex_ranks S self h cs s)))"
    and "status (solves (ranks_session (lex_ranks S self h cs s)) ! (length (solves s) + k)) = OPTIMAL"
  shows "\<exists>m. kept (rank_floor (cs ! k) m) m (length (solves s) + k)
             (ranks_session (lex_ranks S self h cs s)) \<and>
           objective m = criterion_expr self h (cs ! k) \<and>
           modelSense m = (if sense (cs ! k) = ''MAX'' then MAXIMIZE else MINIMIZE)"
  using assms
proof (induction cs arbitrary: s k)
  case Nil
  then show ?case by simp
next
  case (Cons c cs)
  obtain z st s1 where o: "optimise S self h c s = (z, st, s1)"
    by (cases "optimise S self h c s")
  note f = optimise_facts [OF o]
  let ?s2 = "s1\<lparr>model := enforce_objective (model s1) z (objVal (model s1)) (sense c)\<rparr>"
  show ?case
  proof (cases "st = OPTIMAL")
    case False
    with o have r: "ranks_session (lex_ranks S self h (c # cs) s) = s1"
      by (simp add: ranks_session_def)
    from Cons.prems(2) have "k = 0" unfolding r f(1) by simp
    with Cons.prems(3) have "status (model s1) = OPTIMAL" unfolding r f(1) by simp
    with False f(8) show ?thesis by simp
  next
    case True
    with o have r: "ranks_session (lex_ranks S self h (c # cs) s) =
        ranks_session (lex_ranks S self h cs ?s2)"
      by simp
    have l2: "length (solves ?s2) = Suc (length (solves s))" by (simp add: f(1))
    show ?thesis
    proof (cases k)
      case 0
      have e: "enforce_objective (model s1) z (objVal (model s1)) (sense c) =
          addConstr (rank_floor c (model s1)) (model s1)"
        by (simp add: enforce_objective_def rank_floor_def f(5) f(7))
      have "kept (rank_floor c (model s1)) (model s1) (length (solves s)) ?s2"
        unfolding e by (rule kept_new [OF o])
      then have "kept (rank_floor c (model s1)) (model s1) (length (solves s))
          (ranks_session (lex_ranks S self h cs ?s2))"
        by (rule kept_lex_ranks)
      with 0 f(5) f(6) show ?thesis unfolding r by auto
    next
      case (Suc k')
      with Cons.prems have "k' < length cs"
        and "length (solves ?s2) + k' < length (solves (ranks_session (lex_ranks S self h cs ?s2)))"
        and "status (solves (ranks_session (lex_ranks S self h cs ?s2)) ! (length (solves ?s2) + k'))
           = OPTIMAL"
        unfolding r l2 by simp_all
      from Cons.IH [OF this] Suc show ?thesis unfolding r l2 by simp
    qed
  qed
qed


lemma enum_step_cases:
  obtains
    (no_criterion) "crits = []"
      "enum_step S self h crits mx s n b =
         Stop \<lparr>exit = FAILED, outcome = Raised IndexError, session = s\<rparr>"
  | (no_emission) z st s1 r where "crits \<noteq> []"
      "optimise S self h (last crits) s = (z, st, s1)"
      "enum_step S self h crits mx s n b = Stop r" "session r = s1"
      "exit r = STOPPED_INFEASIBLE \<or> exit r = FAILED \<or> exit r = STOPPED_DEGRADED"
  | (last_emission) z s1 r where "crits \<noteq> []"
      "optimise S self h (last crits) s = (z, OPTIMAL, s1)"
      "enum_step S self h crits mx s n b = Stop r"
      "session r = s1\<lparr>printed := printed s1 @ [selection self h (model s1)]\<rparr>"
      "exit r = STOPPED_MAXREACHED \<or> exit r = STOPPED_EMPTY"
  | (emission) z s1 where "crits \<noteq> []"
      "optimise S self h (last crits) s = (z, OPTIMAL, s1)"
      "optimal_vars h (selection self h (model s1)) \<noteq> []"
      "enum_step S self h crits mx s n b =
         Continue (s1\<lparr>printed := printed s1 @ [selection self h (model s1)],
             model := addConstr (no_good_cut (optimal_vars h (selection self h (model s1))))
               (model s1)\<rparr>) (n + 1) (objVal (model s1))"
proof (cases "crits = []")
  case True
  then have "enum_step S self h crits mx s n b =
      Stop \<lparr>exit = FAILED, outcome = Raised IndexError, session = s\<rparr>"
    by (simp add: enum_step_def last_criterion_def)
  with True show ?thesis by (rule no_criterion)
next
  case False
  obtain z st s1 where o: "optimise S self h (last crits) s = (z, st, s1)"
    by (cases "optimise S self h (last crits) s")
  let ?sel = "selection self h (model s1)"
  show ?thesis
  proof (cases "st = OPTIMAL \<and> \<not> objVal (model s1) + EPSILON < b")
    case quiet: False
    then have "\<exists>r. enum_step S self h crits mx s n b = Stop r \<and> session r = s1 \<and>
        (exit r = STOPPED_INFEASIBLE \<or> exit r = FAILED \<or> exit r = STOPPED_DEGRADED)"
      using False o by (auto simp: enum_step_def last_criterion_def Let_def)
    with False o show ?thesis by (blast intro: no_emission)
  next
    case emit: True
    then have st: "st = OPTIMAL" by simp
    show ?thesis
    proof (cases "n + 1 = mx \<or> optimal_vars h ?sel = []")
      case True
      then have "\<exists>r. enum_step S self h crits mx s n b = Stop r \<and>
          session r = s1\<lparr>printed := printed s1 @ [?sel]\<rparr> \<and>
          (exit r = STOPPED_MAXREACHED \<or> exit r = STOPPED_EMPTY)"
        using False o emit by (auto simp: enum_step_def last_criterion_def Let_def selection_def)
      with False o st show ?thesis by (blast intro: last_emission)
    next
      case go: False
      then have "enum_step S self h crits mx s n b =
         Continue (s1\<lparr>printed := printed s1 @ [?sel],
             model := addConstr (no_good_cut (optimal_vars h ?sel)) (model s1)\<rparr>)
           (n + 1) (objVal (model s1))"
        using False o emit by (simp add: enum_step_def last_criterion_def Let_def selection_def)
      with False o st go show ?thesis by (blast intro: emission)
    qed
  qed
qed

lemma kept_enum_loop:
  assumes ret: "enum_loop S self h crits mx s n b = Some r" and k: "kept c m i s"
  shows "kept c m i (session r)"
proof (rule enum_loop_rule [OF ret, where I = "\<lambda>s n b. kept c m i s"
      and Q = "\<lambda>r. kept c m i (session r)"])
  show "kept c m i s" by (rule k)
next
  fix s n b s' n' b'
  assume inv: "kept c m i s" and st: "enum_step S self h crits mx s n b = Continue s' n' b'"
  show "kept c m i s'"
  proof (cases rule: enum_step_cases [of crits S self h mx s n b])
    case no_criterion
    with st show ?thesis by simp
  next
    case (no_emission z st' s1 r)
    with st show ?thesis by simp
  next
    case (last_emission z s1 r)
    with st show ?thesis by simp
  next
    case (emission z s1)
    from kept_optimise [OF inv emission(2)] have "kept c m i s1" .
    then have "kept c m i (s1\<lparr>printed := printed s1 @ [selection self h (model s1)],
             model := addConstr (no_good_cut (optimal_vars h (selection self h (model s1))))
               (model s1)\<rparr>)"
      by (simp add: kept_def addConstr_def)
    with st emission(4) show ?thesis by simp
  qed
next
  fix s n b r
  assume inv: "kept c m i s" and st: "enum_step S self h crits mx s n b = Stop r"
  show "kept c m i (session r)"
  proof (cases rule: enum_step_cases [of crits S self h mx s n b])
    case no_criterion
    with st inv show ?thesis by auto
  next
    case (no_emission z st' s1 r')
    from kept_optimise [OF inv no_emission(2)] have "kept c m i s1" .
    with st no_emission(3,4) show ?thesis by simp
  next
    case (last_emission z s1 r')
    from kept_optimise [OF inv last_emission(2)] have "kept c m i s1" .
    with st last_emission(3,4) show ?thesis by (simp add: kept_printed)
  next
    case (emission z s1)
    with st show ?thesis by simp
  qed
qed

lemma enum_loop_extends:
  assumes ret: "enum_loop S self h crits mx s n b = Some r"
  shows "\<exists>more. solves (session r) = solves s @ more"
proof (rule enum_loop_rule [OF ret, where I = "\<lambda>s' n b. \<exists>more. solves s' = solves s @ more"
      and Q = "\<lambda>r. \<exists>more. solves (session r) = solves s @ more"])
  show "\<exists>more. solves s = solves s @ more" by simp
next
  fix s0 n b s' n' b'
  assume inv: "\<exists>more. solves s0 = solves s @ more"
    and st: "enum_step S self h crits mx s0 n b = Continue s' n' b'"
  show "\<exists>more. solves s' = solves s @ more"
  proof (cases rule: enum_step_cases [of crits S self h mx s0 n b])
    case (emission z s1)
    with st inv optimise_facts(1) [OF emission(2)] show ?thesis by auto
  qed (use st in simp_all)
next
  fix s0 n b r
  assume inv: "\<exists>more. solves s0 = solves s @ more"
    and st: "enum_step S self h crits mx s0 n b = Stop r"
  show "\<exists>more. solves (session r) = solves s @ more"
  proof (cases rule: enum_step_cases [of crits S self h mx s0 n b])
    case no_criterion
    with st inv show ?thesis by auto
  next
    case (no_emission z st' s1 r')
    with st inv optimise_facts(1) [OF no_emission(2)] show ?thesis by auto
  next
    case (last_emission z s1 r')
    with st inv optimise_facts(1) [OF last_emission(2)] show ?thesis by auto
  next
    case (emission z s1)
    with st show ?thesis by simp
  qed
qed

lemma lex_ranks_Inr_length:
  "lex_ranks S self h cs s = Inr s' \<Longrightarrow> length (solves s') = length (solves s) + length cs"
proof (induction cs arbitrary: s)
  case Nil
  then show ?case by simp
next
  case (Cons c cs)
  obtain z st s1 where o: "optimise S self h c s = (z, st, s1)" by (cases "optimise S self h c s")
  with Cons.prems have st: "st = OPTIMAL" by (auto split: if_splits)
  with Cons.prems o have "lex_ranks S self h cs
     (s1\<lparr>model := enforce_objective (model s1) z (objVal (model s1)) (sense c)\<rparr>) = Inr s'" by simp
  from Cons.IH [OF this] optimise_facts(1) [OF o] show ?case by simp
qed



lemma solve_rank_kept:
  assumes ret: "solve S (Some crits) self h max_solutions = Some r"
    and built: "create_vars_and_constraints self Model (patients (pool self))
       (paired_donors (pool self)) (altruists (pool self)) h = Inr (self', h', m)"
    and rank: "i < length crits - 1"
    and solved: "i < length (solves (session r))"
    and opt: "status (solves (session r) ! i) = OPTIMAL"
  shows "\<exists>mi. kept (rank_floor (crits ! i) mi) mi i (session r) \<and>
      objective mi = criterion_expr self' h' (crits ! i) \<and>
      modelSense mi = (if sense (crits ! i) = ''MAX'' then MAXIMIZE else MINIMIZE)"
proof -
  let ?s0 = "\<lparr>model = m, solves = [], printed = []\<rparr>"
  let ?res = "lex_ranks S self' h' (butlast crits) ?s0"
  let ?sr = "ranks_session ?res"
  have ci: "butlast crits ! i = crits ! i" and il: "i < length (butlast crits)"
    using rank by (simp_all add: nth_butlast)
  have s0: "length (solves ?s0) + i = i" by simp
  show ?thesis
  proof (cases ?res)
    case (Inl es)
    then obtain e s where res: "?res = Inl (e, s)" by (cases es) auto
    from ret have r: "session r = s"
      unfolding solve_def Let_def built by (auto simp: res)
    from res have sr: "?sr = s" by (simp add: ranks_session_def)
    from solved opt have "length (solves ?s0) + i < length (solves ?sr)"
      and "status (solves ?sr ! (length (solves ?s0) + i)) = OPTIMAL"
      unfolding sr r s0 by simp_all
    from lex_ranks_floor [OF il this] show ?thesis unfolding sr r ci s0 .
  next
    case (Inr s)
    from ret have loop: "enum_loop S self' h' crits max_solutions s 0 (- 1) = Some r"
      unfolding solve_def Let_def built by (simp add: Inr)
    from Inr have sr: "?sr = s" by (simp add: ranks_session_def)
    from lex_ranks_Inr_length [OF Inr] il have len: "i < length (solves s)" by simp
    from enum_loop_extends [OF loop] obtain more where
      more: "solves (session r) = solves s @ more" by blast
    from len opt have "status (solves s ! i) = OPTIMAL"
      unfolding more by (simp add: nth_append)
    with len have "length (solves ?s0) + i < length (solves ?sr)"
      and "status (solves ?sr ! (length (solves ?s0) + i)) = OPTIMAL"
      unfolding sr s0 by simp_all
    from lex_ranks_floor [OF il this] obtain mi where
      k: "kept (rank_floor (crits ! i) mi) mi i s"
      and o: "objective mi = criterion_expr self' h' (crits ! i)"
      and ms: "modelSense mi = (if sense (crits ! i) = ''MAX'' then MAXIMIZE else MINIMIZE)"
      unfolding sr ci s0 by blast
    from kept_enum_loop [OF loop k] o ms show ?thesis by blast
  qed
qed


text \<open>
  C2. For a criterion that is not the last, solved to optimality with the value \<open>v\<close>, the
  constraint \<open>z \<ge> v\<close> (sense \<^verbatim>\<open>'MAX'\<close>) or \<open>z \<le> v\<close> (otherwise) over the criterion's
  objective expression \<open>z\<close> is in the model of every later solve of the session and in
  the model the session ends with: it is posted and never retracted.
\<close>

theorem C2_rank_optimum_stays_enforced:
  assumes ret: "solve S (Some crits) self h max_solutions = Some r"
    and built: "create_vars_and_constraints self Model (patients (pool self))
       (paired_donors (pool self)) (altruists (pool self)) h = Inr (self', h', m)"
    and rank: "i < length crits - 1"
    and solved: "i < length (solves (session r))"
    and opt: "status (solves (session r) ! i) = OPTIMAL"
  shows "objective (solves (session r) ! i) = criterion_expr self' h' (crits ! i) \<and>
     modelSense (solves (session r) ! i) =
       (if sense (crits ! i) = ''MAX'' then MAXIMIZE else MINIMIZE) \<and>
     \<lparr>lhs = criterion_expr self' h' (crits ! i),
      rel = (if sense (crits ! i) = ''MAX'' then GE else LE),
      rhs = objVal (solves (session r) ! i)\<rparr> \<in> set (constrs (model (session r))) \<and>
     (\<forall>j. i < j \<and> j < length (solves (session r)) \<longrightarrow>
        \<lparr>lhs = criterion_expr self' h' (crits ! i),
         rel = (if sense (crits ! i) = ''MAX'' then GE else LE),
         rhs = objVal (solves (session r) ! i)\<rparr> \<in> set (constrs (solves (session r) ! j)))"
proof -
  from solve_rank_kept [OF ret built rank solved opt]
  obtain mi where k: "kept (rank_floor (crits ! i) mi) mi i (session r)"
    and ob: "objective mi = criterion_expr self' h' (crits ! i)"
    and ms: "modelSense mi = (if sense (crits ! i) = ''MAX'' then MAXIMIZE else MINIMIZE)"
    by blast
  from k have mi: "solves (session r) ! i = mi" by (simp add: kept_def)
  have rf: "rank_floor (crits ! i) mi = \<lparr>lhs = criterion_expr self' h' (crits ! i),
      rel = (if sense (crits ! i) = ''MAX'' then GE else LE), rhs = objVal mi\<rparr>"
    by (simp add: rank_floor_def ob)
  from k have "\<lparr>lhs = criterion_expr self' h' (crits ! i),
      rel = (if sense (crits ! i) = ''MAX'' then GE else LE), rhs = objVal mi\<rparr>
      \<in> set (constrs (model (session r)))"
    and "\<forall>j. i < j \<and> j < length (solves (session r)) \<longrightarrow>
      \<lparr>lhs = criterion_expr self' h' (crits ! i),
       rel = (if sense (crits ! i) = ''MAX'' then GE else LE), rhs = objVal mi\<rparr>
      \<in> set (constrs (solves (session r) ! j))"
    unfolding kept_def rf by blast+
  with ob ms show ?thesis unfolding mi by blast
qed

theorem C2_witness:
  "map (\<lambda>m. (status m, objVal m, modelSense m))
     (solves (session (the (solve exhaustive (Some [most_chains, fewest_chains]) optimiser_A
        fresh_heap 100)))) =
     [(OPTIMAL, 1, MAXIMIZE), (OPTIMAL, 1, MINIMIZE), (INFEASIBLE, 0, MINIMIZE)] \<and>
   \<lparr>lhs = [(0, 1), (1, 0)], rel = GE, rhs = 1\<rparr> \<in> set (constrs (solves (session (the
     (solve exhaustive (Some [most_chains, fewest_chains]) optimiser_A fresh_heap 100))) ! 1)) \<and>
   \<lparr>lhs = [(0, 1), (1, 0)], rel = GE, rhs = 1\<rparr> \<in> set (constrs (solves (session (the
     (solve exhaustive (Some [most_chains, fewest_chains]) optimiser_A fresh_heap 100))) ! 2))"
proof -
  let ?r = "the (solve exhaustive (Some [most_chains, fewest_chains]) optimiser_A fresh_heap 100)"
  let ?b = "projr (create_vars_and_constraints optimiser_A Model (patients (pool optimiser_A))
       (paired_donors (pool optimiser_A)) (altruists (pool optimiser_A)) fresh_heap)"
  have ret: "solve exhaustive (Some [most_chains, fewest_chains]) optimiser_A fresh_heap 100 = Some ?r"
    by (simp add: run_defs pool_A_defs)
  have built: "create_vars_and_constraints optimiser_A Model (patients (pool optimiser_A))
       (paired_donors (pool optimiser_A)) (altruists (pool optimiser_A)) fresh_heap =
       Inr (fst ?b, fst (snd ?b), snd (snd ?b))"
    by (simp add: run_defs pool_A_defs)
  have log: "map (\<lambda>m. (status m, objVal m, modelSense m)) (solves (session ?r)) =
     [(OPTIMAL, 1, MAXIMIZE), (OPTIMAL, 1, MINIMIZE), (INFEASIBLE, 0, MINIMIZE)]"
    by (simp add: run_defs pool_A_defs)
  from arg_cong [OF log, of length] have len: "length (solves (session ?r)) = 3" by simp
  from arg_cong [OF log, of "\<lambda>l. l ! 0"] len
  have v0: "status (solves (session ?r) ! 0) = OPTIMAL" "objVal (solves (session ?r) ! 0) = 1"
    by simp_all
  have rank: "0 < length [most_chains, fewest_chains] - 1" by simp
  have solved: "0 < length (solves (session ?r))" using len by simp
  have z: "criterion_expr (fst ?b) (fst (snd ?b)) ([most_chains, fewest_chains] ! 0) = [(0, 1), (1, 0)]"
    by (simp add: run_defs pool_A_defs)
  from C2_rank_optimum_stays_enforced [OF ret built rank solved v0(1)]
  have "\<forall>j. 0 < j \<and> j < length (solves (session ?r)) \<longrightarrow>
      \<lparr>lhs = [(0, 1), (1, 0)], rel = GE, rhs = 1\<rparr> \<in> set (constrs (solves (session ?r) ! j))"
    unfolding z v0(2) by (simp add: most_chains_def)
  then have "\<lparr>lhs = [(0, 1), (1, 0)], rel = GE, rhs = 1\<rparr> \<in> set (constrs (solves (session ?r) ! 1))"
    and "\<lparr>lhs = [(0, 1), (1, 0)], rel = GE, rhs = 1\<rparr> \<in> set (constrs (solves (session ?r) ! 2))"
    using len by simp_all
  with log show ?thesis by simp
qed

subsection \<open>No selection is printed twice\<close>

lemma create_valid_vars:
  assumes built: "create_vars_and_constraints self Model (patients (pool self))
       (paired_donors (pool self)) (altruists (pool self)) h = Inr (self', h', m)"
  shows "valid_vars self' h' (length (vars m))"
proof -
  note ch = create_char [OF built]
  from ch(1) have self': "self' = number_candidates self" by (simp add: number_candidates_def)
  let ?nch = "length (chains self)" and ?ncy = "length (cycles self)"
  let ?alts = "altruists (pool self)"
  from ch(2) have n: "length (vars m) = ?nch + ?ncy + length ?alts" by simp
  have "list_all (\<lambda>v. v < length (vars m)) (map chain_mip_var (chains self'))"
    unfolding self' number_candidates_vars n by (simp add: list_all_iff)
  then have 1: "list_all (\<lambda>c. chain_mip_var c < length (vars m)) (chains self')"
    by (simp add: list_all_iff)
  have "list_all (\<lambda>v. v < length (vars m)) (map cycle_mip_var (cycles self'))"
    unfolding self' number_candidates_vars n by (simp add: list_all_iff)
  then have 2: "list_all (\<lambda>c. cycle_mip_var c < length (vars m)) (cycles self')"
    by (simp add: list_all_iff)
  have 3: "list_all (\<lambda>a. altruist_mip_var h' a < length (vars m)) (altruists (pool self'))"
    unfolding list_all_iff
  proof
    fix a assume "a \<in> set (altruists (pool self'))"
    then have a: "a \<in> set ?alts" by (simp add: self' number_candidates_simps)
    then have "own_vars (?nch + ?ncy) ?alts a \<noteq> []" by (simp add: own_vars_empty)
    then have "last (own_vars (?nch + ?ncy) ?alts a) \<in> set (own_vars (?nch + ?ncy) ?alts a)"
      by (rule last_in_set)
    from own_vars_range [OF this] ch(4) a show "altruist_mip_var h' a < length (vars m)"
      unfolding n by simp
  qed
  from 1 2 3 show ?thesis by (simp add: valid_vars_def)
qed

lemma eval_quicksum: "eval x (quicksum vs) = sum_list (map (\<lambda>v. x ! v) vs)"
  by (simp add: eval_def quicksum_def comp_def)

lemma eval_quicksum_ones: "\<forall>v \<in> set vs. x ! v = 1 \<Longrightarrow> eval x (quicksum vs) = of_nat (length vs)"
  unfolding eval_quicksum by (induction vs) auto

lemma cut_excludes: "\<forall>v \<in> set vs. x ! v = 1 \<Longrightarrow> \<not> holds x (no_good_cut vs)"
  by (simp add: holds_def no_good_cut_def eval_quicksum_ones)

lemma binary_above_half: "binary r \<Longrightarrow> r > 1 / 2 \<Longrightarrow> r = 1"
  by (auto simp: binary_def)

lemma selected_vars_one:
  assumes vv: "valid_vars self h (length (vars m))" and f: "feasible m (X m)"
    and v: "v \<in> set (optimal_vars h (selection self h m))"
  shows "X m ! v = 1"
proof -
  from f have len: "length (X m) = length (vars m)" and bin: "\<forall>r \<in> set (X m). binary r"
    by (simp_all add: feasible_def list_all_iff)
  from v vv have "v < length (vars m) \<and> X m ! v > 1 / 2"
    by (auto simp: optimal_vars_def selection_def items_in_optimal_solution_def valid_vars_def
        list_all_iff)
  then have "v < length (X m)" and half: "X m ! v > 1 / 2" using len by simp_all
  then have "X m ! v \<in> set (X m)" by simp
  with bin have "binary (X m ! v)" by blast
  then show ?thesis using half by (rule binary_above_half)
qed

lemma selection_fresh:
  assumes vv: "valid_vars self h (length (vars m))" and f: "feasible m (X m)"
    and cut: "no_good_cut (optimal_vars h sel) \<in> set (constrs m)"
  shows "selection self h m \<noteq> sel"
proof
  assume eq: "selection self h m = sel"
  from f cut have "holds (X m) (no_good_cut (optimal_vars h sel))"
    by (simp add: feasible_def list_all_iff)
  moreover have "\<forall>v \<in> set (optimal_vars h sel). X m ! v = 1"
    using selected_vars_one [OF vv f] unfolding eq by blast
  ultimately show False using cut_excludes by blast
qed


lemma enumerating_optimise:
  assumes inv: "enumerating k self h nv s" and o: "optimise S self h c s = (z, st, s1)"
  shows "length (solves s1) = Suc (k + length (printed s))"
    and "solves s1 ! (k + length (printed s)) = model s1"
    and "length (vars (model s1)) = nv"
    and "\<forall>p < length (printed s).
         printed s ! p = selection self h (solves s1 ! (k + p)) \<and>
         optimal_vars h (printed s ! p) \<noteq> [] \<and>
         kept (no_good_cut (optimal_vars h (printed s ! p))) (solves s1 ! (k + p)) (k + p) s1"
proof -
  note f = optimise_facts [OF o]
  from inv have len: "length (solves s) = k + length (printed s)"
    by (simp add: enumerating_def)
  show "length (solves s1) = Suc (k + length (printed s))" by (simp add: f(1) len)
  show "solves s1 ! (k + length (printed s)) = model s1"
    using len by (simp add: f(1) nth_append)
  from inv show "length (vars (model s1)) = nv" by (simp add: f(3) enumerating_def)
  show "\<forall>p < length (printed s).
         printed s ! p = selection self h (solves s1 ! (k + p)) \<and>
         optimal_vars h (printed s ! p) \<noteq> [] \<and>
         kept (no_good_cut (optimal_vars h (printed s ! p))) (solves s1 ! (k + p)) (k + p) s1"
  proof (intro allI impI)
    fix p assume p: "p < length (printed s)"
    with len have e: "solves s1 ! (k + p) = solves s ! (k + p)"
      by (simp add: f(1) nth_append)
    from inv p have "printed s ! p = selection self h (solves s ! (k + p))"
      and "optimal_vars h (printed s ! p) \<noteq> []"
      and "kept (no_good_cut (optimal_vars h (printed s ! p))) (solves s ! (k + p)) (k + p) s"
      unfolding enumerating_def by blast+
    with kept_optimise [OF _ o]
    show "printed s ! p = selection self h (solves s1 ! (k + p)) \<and>
         optimal_vars h (printed s ! p) \<noteq> [] \<and>
         kept (no_good_cut (optimal_vars h (printed s ! p))) (solves s1 ! (k + p)) (k + p) s1"
      unfolding e by blast
  qed
qed

lemma enumerating_fresh:
  assumes inv: "enumerating k self h nv s" and o: "optimise S self h c s = (z, OPTIMAL, s1)"
    and S: "sound S" and vv: "valid_vars self h nv"
  shows "selection self h (model s1) \<notin> set (printed s)"
proof
  assume "selection self h (model s1) \<in> set (printed s)"
  then obtain p where p: "p < length (printed s)"
    and eq: "printed s ! p = selection self h (model s1)"
    by (auto simp: in_set_conv_nth)
  note e = enumerating_optimise [OF inv o]
  from e(4) p have "kept (no_good_cut (optimal_vars h (printed s ! p))) (solves s1 ! (k + p)) (k + p) s1"
    by blast
  then have cut: "no_good_cut (optimal_vars h (printed s ! p)) \<in> set (constrs (model s1))"
    by (simp add: kept_def)
  from vv e(3) have vv1: "valid_vars self h (length (vars (model s1)))" by simp
  from selection_fresh [OF vv1 optimise_sound(1) [OF o S] cut] eq show False by simp
qed


lemma enumerating_step:
  assumes inv: "enumerating k self h nv s" and S: "sound S" and vv: "valid_vars self h nv"
    and st: "enum_step S self h crits mx s n b = Continue s' n' b'"
  shows "enumerating k self h nv s'"
proof (cases rule: enum_step_cases [of crits S self h mx s n b])
  case (emission z s1)
  let ?sel = "selection self h (model s1)"
  let ?cut = "no_good_cut (optimal_vars h ?sel)"
  note f = optimise_facts [OF emission(2)]
  note e = enumerating_optimise [OF inv emission(2)]
  from st emission(4) have s': "s' = s1\<lparr>printed := printed s @ [?sel],
      model := addConstr ?cut (model s1)\<rparr>"
    by (simp add: f(2))
  from inv have len: "length (solves s) = k + length (printed s)" and d: "distinct (printed s)"
    by (simp_all add: enumerating_def)
  have fresh: "?sel \<notin> set (printed s)"
    by (rule enumerating_fresh [OF inv emission(2) S vv])
  have ps: "printed s' = printed s @ [?sel]" and ss: "solves s' = solves s1"
    by (simp_all add: s')
  have new: "kept ?cut (model s1) (k + length (printed s)) s'"
    using kept_new [OF emission(2), of ?cut] unfolding s' len by (simp add: kept_def)
  have "\<forall>p < length (printed s @ [?sel]).
         (printed s @ [?sel]) ! p = selection self h (solves s1 ! (k + p)) \<and>
         optimal_vars h ((printed s @ [?sel]) ! p) \<noteq> [] \<and>
         kept (no_good_cut (optimal_vars h ((printed s @ [?sel]) ! p))) (solves s1 ! (k + p)) (k + p) s'"
  proof (intro allI impI)
    fix p assume p: "p < length (printed s @ [?sel])"
    show "(printed s @ [?sel]) ! p = selection self h (solves s1 ! (k + p)) \<and>
         optimal_vars h ((printed s @ [?sel]) ! p) \<noteq> [] \<and>
         kept (no_good_cut (optimal_vars h ((printed s @ [?sel]) ! p))) (solves s1 ! (k + p)) (k + p) s'"
    proof (cases "p < length (printed s)")
      case True
      with e(4) have "printed s ! p = selection self h (solves s1 ! (k + p))"
        and "optimal_vars h (printed s ! p) \<noteq> []"
        and "kept (no_good_cut (optimal_vars h (printed s ! p))) (solves s1 ! (k + p)) (k + p) s1"
        by blast+
      moreover from this(3)
      have "kept (no_good_cut (optimal_vars h (printed s ! p))) (solves s1 ! (k + p)) (k + p) s'"
        unfolding s' by (simp add: kept_def addConstr_def)
      ultimately show ?thesis using True by (simp add: nth_append)
    next
      case False
      with p have pe: "p = length (printed s)" by simp
      show ?thesis unfolding pe using new emission(3) e(2) by simp
    qed
  qed
  then have A: "\<forall>p < length (printed s').
         printed s' ! p = selection self h (solves s' ! (k + p)) \<and>
         optimal_vars h (printed s' ! p) \<noteq> [] \<and>
         kept (no_good_cut (optimal_vars h (printed s' ! p))) (solves s' ! (k + p)) (k + p) s'"
    unfolding ps ss .
  have L: "length (solves s') = k + length (printed s')" using e(1) by (simp add: s')
  have V: "length (vars (model s')) = nv" using e(3) by (simp add: s' addConstr_def)
  have D: "distinct (printed s')" using d fresh by (simp add: s')
  from L V D A show ?thesis unfolding enumerating_def by blast
qed (use st in simp_all)

lemma enumerating_stop:
  assumes inv: "enumerating k self h nv s" and S: "sound S" and vv: "valid_vars self h nv"
    and st: "enum_step S self h crits mx s n b = Stop r"
  shows "enumerated k self h (session r)"
proof (cases rule: enum_step_cases [of crits S self h mx s n b])
  case no_criterion
  with st have r: "session r = s" by auto
  from inv show ?thesis unfolding r enumerating_def enumerated_def kept_def
    by (metis add_less_cancel_left)
next
  case (no_emission z st' s1 r')
  with st have r: "session r = s1" by simp
  note f = optimise_facts [OF no_emission(2)]
  note e = enumerating_optimise [OF inv no_emission(2)]
  from inv have d: "distinct (printed s)" by (simp add: enumerating_def)
  from e(4) d show ?thesis unfolding r enumerated_def kept_def f(2)
    by (metis add_less_cancel_left)
next
  case (last_emission z s1 r')
  let ?sel = "selection self h (model s1)"
  note f = optimise_facts [OF last_emission(2)]
  note e = enumerating_optimise [OF inv last_emission(2)]
  from st last_emission(3,4) have r: "session r = s1\<lparr>printed := printed s @ [?sel]\<rparr>"
    by (simp add: f(2))
  from inv have d: "distinct (printed s)" by (simp add: enumerating_def)
  have pr: "printed (session r) = printed s @ [?sel]" and sr: "solves (session r) = solves s1"
    by (simp_all add: r)
  have fresh: "?sel \<notin> set (printed s)"
    by (rule enumerating_fresh [OF inv last_emission(2) S vv])
  have "\<forall>p < length (printed s @ [?sel]).
         k + p < length (solves s1) \<and>
         (printed s @ [?sel]) ! p = selection self h (solves s1 ! (k + p)) \<and>
         (\<forall>q. p < q \<and> k + q < length (solves s1) \<longrightarrow>
            no_good_cut (optimal_vars h ((printed s @ [?sel]) ! p)) \<in> set (constrs (solves s1 ! (k + q))))"
  proof (intro allI impI)
    fix p assume p: "p < length (printed s @ [?sel])"
    show "k + p < length (solves s1) \<and>
         (printed s @ [?sel]) ! p = selection self h (solves s1 ! (k + p)) \<and>
         (\<forall>q. p < q \<and> k + q < length (solves s1) \<longrightarrow>
            no_good_cut (optimal_vars h ((printed s @ [?sel]) ! p)) \<in> set (constrs (solves s1 ! (k + q))))"
    proof (cases "p < length (printed s)")
      case True
      with e(4) have "printed s ! p = selection self h (solves s1 ! (k + p))"
        and "kept (no_good_cut (optimal_vars h (printed s ! p))) (solves s1 ! (k + p)) (k + p) s1"
        by blast+
      then show ?thesis using True unfolding kept_def
        by (simp add: nth_append)
    next
      case False
      with p have pe: "p = length (printed s)" by simp
      show ?thesis unfolding pe using e(1) e(2) by auto
    qed
  qed
  then have A: "\<forall>p < length (printed (session r)).
         k + p < length (solves (session r)) \<and>
         printed (session r) ! p = selection self h (solves (session r) ! (k + p)) \<and>
         (\<forall>q. p < q \<and> k + q < length (solves (session r)) \<longrightarrow>
            no_good_cut (optimal_vars h (printed (session r) ! p))
              \<in> set (constrs (solves (session r) ! (k + q))))"
    unfolding pr sr .
  have D: "distinct (printed (session r))" using d fresh by (simp add: r)
  from D A show ?thesis unfolding enumerated_def by blast
next
  case (emission z s1)
  with st show ?thesis by simp
qed


lemma lex_ranks_frame:
  "printed (ranks_session (lex_ranks S self h cs s)) = printed s \<and>
   vars (model (ranks_session (lex_ranks S self h cs s))) = vars (model s)"
proof (induction cs arbitrary: s)
  case Nil
  show ?case by (simp add: ranks_session_def)
next
  case (Cons c cs)
  obtain z st s1 where o: "optimise S self h c s = (z, st, s1)" by (cases "optimise S self h c s")
  note f = optimise_facts [OF o]
  show ?case
  proof (cases "st = OPTIMAL")
    case True
    with o Cons.IH [of "s1\<lparr>model := enforce_objective (model s1) z (objVal (model s1)) (sense c)\<rparr>"]
    show ?thesis by (simp add: f(2) f(3) enforce_objective_def addConstr_def)
  next
    case False
    with o show ?thesis by (simp add: ranks_session_def f(2) f(3))
  qed
qed

text \<open>
  C7. With a sound solver no selection is printed twice. The \<open>p\<close>-th printed selection
  is read from the \<open>p\<close>-th solve of the last rank, and the cut \<open>sum \<le> count - 1\<close> over
  exactly its variables is in the model of every later solve of the session.
\<close>

theorem C7_excluded_selection_never_returns:
  assumes ret: "solve S (Some crits) self h max_solutions = Some r"
    and built: "create_vars_and_constraints self Model (patients (pool self))
       (paired_donors (pool self)) (altruists (pool self)) h = Inr (self', h', m)"
    and S: "sound S"
  shows "distinct (printed (session r)) \<and>
     (\<forall>p < length (printed (session r)).
        length crits - 1 + p < length (solves (session r)) \<and>
        printed (session r) ! p =
          selection self' h' (solves (session r) ! (length crits - 1 + p)) \<and>
        (\<forall>q. p < q \<and> length crits - 1 + q < length (solves (session r)) \<longrightarrow>
           no_good_cut (optimal_vars h' (printed (session r) ! p))
             \<in> set (constrs (solves (session r) ! (length crits - 1 + q)))))"
proof -
  let ?s0 = "\<lparr>model = m, solves = [], printed = []\<rparr>"
  let ?res = "lex_ranks S self' h' (butlast crits) ?s0"
  let ?k = "length crits - 1"
  note fr = lex_ranks_frame [of S self' h' "butlast crits" ?s0]
  have "enumerated ?k self' h' (session r)"
  proof (cases ?res)
    case (Inl es)
    then obtain e s where res: "?res = Inl (e, s)" by (cases es) auto
    from ret have r: "session r = s"
      unfolding solve_def Let_def built by (auto simp: res)
    from fr have "printed s = []" by (simp add: res ranks_session_def)
    then show ?thesis unfolding r enumerated_def by simp
  next
    case (Inr s)
    from ret have loop: "enum_loop S self' h' crits max_solutions s 0 (- 1) = Some r"
      unfolding solve_def Let_def built by (simp add: Inr)
    from fr have p: "printed s = []" and v: "vars (model s) = vars m"
      by (simp_all add: Inr ranks_session_def)
    from lex_ranks_Inr_length [OF Inr] have l: "length (solves s) = ?k" by simp
    have init: "enumerating ?k self' h' (length (vars m)) s"
      unfolding enumerating_def by (simp add: p v l)
    note vv = create_valid_vars [OF built]
    show ?thesis
      by (rule enum_loop_rule [OF loop, where I = "\<lambda>s n b. enumerating ?k self' h' (length (vars m)) s"
            and Q = "\<lambda>r. enumerated ?k self' h' (session r)", OF init])
        (erule (1) enumerating_step [OF _ S vv] enumerating_stop [OF _ S vv])+
  qed
  then show ?thesis unfolding enumerated_def .
qed

lemmas pool_D_defs =
  optimiser_D_def pool_D_def chain_D1_def chain_D2_def most_chains_def fresh_heap_def

theorem C7_witness:
  "printed (session (the (solve exhaustive (Some [most_chains]) optimiser_D fresh_heap 100))) =
     [([chain_D2], [], []), ([chain_D1], [], [])] \<and>
   distinct (printed (session (the (solve exhaustive (Some [most_chains]) optimiser_D
     fresh_heap 100)))) \<and>
   no_good_cut [1] \<in> set (constrs (solves (session (the
     (solve exhaustive (Some [most_chains]) optimiser_D fresh_heap 100))) ! 1)) \<and>
   no_good_cut [1] \<in> set (constrs (solves (session (the
     (solve exhaustive (Some [most_chains]) optimiser_D fresh_heap 100))) ! 2))"
proof -
  let ?r = "the (solve exhaustive (Some [most_chains]) optimiser_D fresh_heap 100)"
  let ?b = "projr (create_vars_and_constraints optimiser_D Model (patients (pool optimiser_D))
       (paired_donors (pool optimiser_D)) (altruists (pool optimiser_D)) fresh_heap)"
  have ret: "solve exhaustive (Some [most_chains]) optimiser_D fresh_heap 100 = Some ?r"
    by (simp add: run_defs pool_D_defs)
  have built: "create_vars_and_constraints optimiser_D Model (patients (pool optimiser_D))
       (paired_donors (pool optimiser_D)) (altruists (pool optimiser_D)) fresh_heap =
       Inr (fst ?b, fst (snd ?b), snd (snd ?b))"
    by (simp add: run_defs pool_D_defs)
  have pr: "printed (session ?r) = [([chain_D2], [], []), ([chain_D1], [], [])]"
    by (simp add: run_defs pool_D_defs)
  have len: "length (solves (session ?r)) = 3"
    by (simp add: run_defs pool_D_defs)
  have vs: "optimal_vars (fst (snd ?b)) ([chain_D2], [], []) = [1]"
    by (simp add: optimal_vars_def chain_D2_def)
  from C7_excluded_selection_never_returns [OF ret built exhaustive_sound]
  have d: "distinct (printed (session ?r))"
    and c: "\<forall>p < length (printed (session ?r)).
        \<forall>q. p < q \<and> length [most_chains] - 1 + q < length (solves (session ?r)) \<longrightarrow>
           no_good_cut (optimal_vars (fst (snd ?b)) (printed (session ?r) ! p))
             \<in> set (constrs (solves (session ?r) ! (length [most_chains] - 1 + q)))"
    by blast+
  have p0: "0 < length (printed (session ?r))" unfolding pr by simp
  from c p0 have "\<forall>q. 0 < q \<and> length [most_chains] - 1 + q < length (solves (session ?r)) \<longrightarrow>
      no_good_cut (optimal_vars (fst (snd ?b)) (printed (session ?r) ! 0))
        \<in> set (constrs (solves (session ?r) ! (length [most_chains] - 1 + q)))"
    by blast
  then have "\<forall>q. 0 < q \<and> q < 3 \<longrightarrow>
      no_good_cut [1] \<in> set (constrs (solves (session ?r) ! q))"
    unfolding len pr using vs by simp
  then have "no_good_cut [1] \<in> set (constrs (solves (session ?r) ! 1))"
    and "no_good_cut [1] \<in> set (constrs (solves (session ?r) ! 2))"
    by simp_all
  with pr d show ?thesis by simp
qed

subsection \<open>Every printed selection is disjoint\<close>

lemma binary_value:
  "list_all binary x \<Longrightarrow> v < length x \<Longrightarrow> x ! v = (if x ! v > 1 / 2 then 1 else 0)"
  by (auto simp: list_all_length binary_def)

lemma sum_list_concat_replicate:
  "sum_list (map f (concat (map (\<lambda>c. replicate (n c) (g c)) cs))) =
   sum_list (map (\<lambda>c. of_nat (n c) * f (g c)) cs)"
  for f :: "nat \<Rightarrow> rat"
  by (induction cs) (simp_all add: sum_list_replicate)

lemma weighted_sum_selected:
  assumes "list_all binary x" and "\<forall>c \<in> set cs. var c < length x"
  shows "sum_list (map (\<lambda>c. of_nat (n c) * x ! var c) cs) =
     of_nat (sum_list (map n (filter (\<lambda>c. x ! var c > 1 / 2) cs)))"
  using assms(2)
proof (induction cs)
  case Nil
  show ?case by simp
next
  case (Cons c cs)
  from Cons.prems have "var c < length x" by simp
  from binary_value [OF assms(1) this] Cons show ?case by auto
qed

lemma count_le_sum:
  "\<forall>x \<in> set xs. Q x \<longrightarrow> 1 \<le> n x \<Longrightarrow> length (filter Q xs) \<le> sum_list (map n xs)"
  for n :: "'a \<Rightarrow> nat"
  by (induction xs) auto

lemma candidates_at_most_one:
  assumes bin: "list_all binary (X m1)"
    and vv: "valid_vars self h (length (X m1))"
    and le: "eval (X m1) (quicksum (candidate_vars self Q)) \<le> 1"
  shows "length (filter (\<lambda>c. \<exists>pd \<in> set (chain_pd_pairs c). Q pd)
             (items_in_optimal_solution m1 chain_mip_var (chains self))) +
         length (filter (\<lambda>c. \<exists>pd \<in> set (cycle_pd_pairs c). Q pd)
             (items_in_optimal_solution m1 cycle_mip_var (cycles self))) \<le> 1"
proof -
  let ?x = "X m1"
  let ?chs = "items_in_optimal_solution m1 chain_mip_var (chains self)"
  let ?cys = "items_in_optimal_solution m1 cycle_mip_var (cycles self)"
  let ?nch = "\<lambda>c. length (filter Q (chain_pd_pairs c))"
  let ?ncy = "\<lambda>c. length (filter Q (cycle_pd_pairs c))"
  from vv have v1: "\<forall>c \<in> set (chains self). chain_mip_var c < length ?x"
    and v2: "\<forall>c \<in> set (cycles self). cycle_mip_var c < length ?x"
    by (simp_all add: valid_vars_def list_all_iff)
  have "eval ?x (quicksum (candidate_vars self Q)) =
      sum_list (map (\<lambda>c. of_nat (?nch c) * ?x ! chain_mip_var c) (chains self)) +
      sum_list (map (\<lambda>c. of_nat (?ncy c) * ?x ! cycle_mip_var c) (cycles self))"
    by (simp add: eval_quicksum candidate_vars_def sum_list_concat_replicate)
  also have "\<dots> = of_nat (sum_list (map ?nch ?chs)) + of_nat (sum_list (map ?ncy ?cys))"
    unfolding items_in_optimal_solution_def
    by (simp only: weighted_sum_selected [OF bin v1] weighted_sum_selected [OF bin v2])
  finally have "(of_nat (sum_list (map ?nch ?chs) + sum_list (map ?ncy ?cys)) :: rat) \<le> 1"
    using le by simp
  then have total: "sum_list (map ?nch ?chs) + sum_list (map ?ncy ?cys) \<le> 1"
    by (metis of_nat_1 of_nat_le_iff)
  have "length (filter (\<lambda>c. \<exists>pd \<in> set (chain_pd_pairs c). Q pd) ?chs) \<le> sum_list (map ?nch ?chs)"
    by (rule count_le_sum) (auto simp: Suc_le_eq length_greater_0_conv filter_empty_conv)
  moreover
  have "length (filter (\<lambda>c. \<exists>pd \<in> set (cycle_pd_pairs c). Q pd) ?cys) \<le> sum_list (map ?ncy ?cys)"
    by (rule count_le_sum) (auto simp: Suc_le_eq length_greater_0_conv filter_empty_conv)
  ultimately show ?thesis using total by linarith
qed

lemma altruist_exactly_one:
  assumes bin: "list_all binary (X m1)"
    and vv: "valid_vars self h (length (X m1))"
    and a: "a \<in> set (altruists (pool self))"
    and eq: "eval (X m1) (quicksum (altruist_mip_var h a #
        map chain_mip_var (filter (\<lambda>c. chain_altruist c = a) (chains self)))) = 1"
  shows "(a \<in> set (items_in_optimal_solution m1 (altruist_mip_var h) (altruists (pool self))) \<and>
          filter (\<lambda>c. chain_altruist c = a)
            (items_in_optimal_solution m1 chain_mip_var (chains self)) = []) \<or>
         (a \<notin> set (items_in_optimal_solution m1 (altruist_mip_var h) (altruists (pool self))) \<and>
          length (filter (\<lambda>c. chain_altruist c = a)
            (items_in_optimal_solution m1 chain_mip_var (chains self))) = 1)"
proof -
  let ?x = "X m1"
  let ?mine = "filter (\<lambda>c. chain_altruist c = a) (chains self)"
  let ?sel = "filter (\<lambda>c. chain_altruist c = a)
      (items_in_optimal_solution m1 chain_mip_var (chains self))"
  from vv a have va: "altruist_mip_var h a < length ?x"
    and v1: "\<forall>c \<in> set ?mine. chain_mip_var c < length ?x"
    by (simp_all add: valid_vars_def list_all_iff)
  have sel: "?sel = filter (\<lambda>c. ?x ! chain_mip_var c > 1 / 2) ?mine"
    unfolding items_in_optimal_solution_def by (simp add: conj_commute)
  have "sum_list (map (\<lambda>c. ?x ! chain_mip_var c) ?mine) =
      sum_list (map (\<lambda>c. of_nat 1 * ?x ! chain_mip_var c) ?mine)"
    by simp
  also have "\<dots> = of_nat (sum_list (map (\<lambda>c. 1) (filter (\<lambda>c. ?x ! chain_mip_var c > 1 / 2) ?mine)))"
    by (rule weighted_sum_selected [OF bin v1])
  also have "\<dots> = of_nat (length ?sel)"
    unfolding sel by (simp add: sum_list_triv)
  finally have chains_sum: "sum_list (map (\<lambda>c. ?x ! chain_mip_var c) ?mine) = of_nat (length ?sel)" .
  from eq have total: "?x ! altruist_mip_var h a + of_nat (length ?sel) = 1"
    by (simp add: eval_quicksum comp_def chains_sum)
  have idle: "a \<in> set (items_in_optimal_solution m1 (altruist_mip_var h) (altruists (pool self)))
      \<longleftrightarrow> ?x ! altruist_mip_var h a > 1 / 2"
    using a by (simp add: items_in_optimal_solution_def)
  show ?thesis
  proof (cases "?x ! altruist_mip_var h a > 1 / 2")
    case True
    with binary_value [OF bin va] have "?x ! altruist_mip_var h a = 1" by simp
    with total have "length ?sel = 0" by simp
    with True idle show ?thesis by simp
  next
    case False
    with binary_value [OF bin va] have "?x ! altruist_mip_var h a = 0" by simp
    with total have "(of_nat (length ?sel) :: rat) = 1" by simp
    then have "length ?sel = 1" by (metis of_nat_1 of_nat_eq_iff)
    with False idle show ?thesis by simp
  qed
qed


lemma tighter_refl: "tighter m m"
  by (simp add: tighter_def)

lemma tighter_same:
  "tighter m m0 \<Longrightarrow> vars m' = vars m \<Longrightarrow> constrs m' = constrs m \<Longrightarrow> tighter m' m0"
  by (simp add: tighter_def feasible_def)

lemma feasible_addConstr: "feasible (addConstr c m) x \<Longrightarrow> feasible m x"
  by (simp add: feasible_def addConstr_def)

lemma tighter_addConstr: "tighter m m0 \<Longrightarrow> tighter (addConstr c m) m0"
  unfolding tighter_def by (blast dest: feasible_addConstr)

lemma tighter_lex_ranks:
  "tighter (model s) m0 \<Longrightarrow> tighter (model (ranks_session (lex_ranks S self h cs s))) m0"
proof (induction cs arbitrary: s)
  case Nil
  then show ?case by (simp add: ranks_session_def)
next
  case (Cons c cs)
  obtain z st s1 where o: "optimise S self h c s = (z, st, s1)" by (cases "optimise S self h c s")
  note f = optimise_facts [OF o]
  from Cons.prems have t1: "tighter (model s1) m0" by (rule tighter_same) (simp_all add: f)
  show ?case
  proof (cases "st = OPTIMAL")
    case True
    from t1 have "tighter (model (s1\<lparr>model := enforce_objective (model s1) z (objVal (model s1))
        (sense c)\<rparr>)) m0"
      by (simp add: enforce_objective_def tighter_addConstr)
    from Cons.IH [OF this] o True show ?thesis by simp
  next
    case False
    with o t1 show ?thesis by (simp add: ranks_session_def)
  qed
qed

lemma from_solution_loop:
  assumes loop: "enum_loop S self h crits mx s n b = Some r" and S: "sound S"
    and t: "tighter (model s) m0"
    and p: "\<forall>sel \<in> set (printed s). from_solution self h m0 sel"
  shows "\<forall>sel \<in> set (printed (session r)). from_solution self h m0 sel"
proof (rule enum_loop_rule [OF loop, where
      I = "\<lambda>s n b. tighter (model s) m0 \<and> (\<forall>sel \<in> set (printed s). from_solution self h m0 sel)"
      and Q = "\<lambda>r. \<forall>sel \<in> set (printed (session r)). from_solution self h m0 sel"])
  from t p show "tighter (model s) m0 \<and> (\<forall>sel \<in> set (printed s). from_solution self h m0 sel)"
    by simp
next
  fix s n b s' n' b'
  assume inv: "tighter (model s) m0 \<and> (\<forall>sel \<in> set (printed s). from_solution self h m0 sel)"
    and st: "enum_step S self h crits mx s n b = Continue s' n' b'"
  show "tighter (model s') m0 \<and> (\<forall>sel \<in> set (printed s'). from_solution self h m0 sel)"
  proof (cases rule: enum_step_cases [of crits S self h mx s n b])
    case (emission z s1)
    note f = optimise_facts [OF emission(2)]
    from inv have t1: "tighter (model s1) m0" by (auto intro: tighter_same simp: f)
    from optimise_sound(1) [OF emission(2) S] t1 have "feasible m0 (X (model s1))"
      by (simp add: tighter_def)
    then have "from_solution self h m0 (selection self h (model s1))"
      unfolding from_solution_def by blast
    with inv t1 st emission(4) show ?thesis
      by (auto simp: f(2) tighter_addConstr)
  qed (use st in simp_all)
next
  fix s n b r
  assume inv: "tighter (model s) m0 \<and> (\<forall>sel \<in> set (printed s). from_solution self h m0 sel)"
    and st: "enum_step S self h crits mx s n b = Stop r"
  show "\<forall>sel \<in> set (printed (session r)). from_solution self h m0 sel"
  proof (cases rule: enum_step_cases [of crits S self h mx s n b])
    case no_criterion
    with st inv show ?thesis by auto
  next
    case (no_emission z st' s1 r')
    with st inv optimise_facts(2) [OF no_emission(2)] show ?thesis by auto
  next
    case (last_emission z s1 r')
    note f = optimise_facts [OF last_emission(2)]
    from inv have t1: "tighter (model s1) m0" by (auto intro: tighter_same simp: f)
    from optimise_sound(1) [OF last_emission(2) S] t1 have "feasible m0 (X (model s1))"
      by (simp add: tighter_def)
    then have "from_solution self h m0 (selection self h (model s1))"
      unfolding from_solution_def by blast
    with inv st last_emission(3,4) show ?thesis by (auto simp: f(2))
  next
    case (emission z s1)
    with st show ?thesis by simp
  qed
qed

lemma solve_from_solution:
  assumes ret: "solve S (Some crits) self h max_solutions = Some r"
    and built: "create_vars_and_constraints self Model (patients (pool self))
       (paired_donors (pool self)) (altruists (pool self)) h = Inr (self', h', m)"
    and S: "sound S"
  shows "\<forall>sel \<in> set (printed (session r)). from_solution self' h' m sel"
proof -
  let ?s0 = "\<lparr>model = m, solves = [], printed = []\<rparr>"
  let ?res = "lex_ranks S self' h' (butlast crits) ?s0"
  note fr = lex_ranks_frame [of S self' h' "butlast crits" ?s0]
  have t0: "tighter (model ?s0) m" by (simp add: tighter_refl)
  note tr = tighter_lex_ranks [OF t0, of S self' h' "butlast crits"]
  show ?thesis
  proof (cases ?res)
    case (Inl es)
    then obtain e s where res: "?res = Inl (e, s)" by (cases es) auto
    from ret have r: "session r = s"
      unfolding solve_def Let_def built by (auto simp: res)
    from fr have "printed s = []" by (simp add: res ranks_session_def)
    then show ?thesis unfolding r by simp
  next
    case (Inr s)
    from ret have loop: "enum_loop S self' h' crits max_solutions s 0 (- 1) = Some r"
      unfolding solve_def Let_def built by (simp add: Inr)
    from fr have p: "printed s = []" by (simp add: Inr ranks_session_def)
    from tr have t: "tighter (model s) m" by (simp add: Inr ranks_session_def)
    show ?thesis by (rule from_solution_loop [OF loop S t]) (simp add: p)
  qed
qed


text \<open>
  C1. On a well-typed pool and with a sound solver, in every selection that \<^verbatim>\<open>solve\<close>
  prints, a patient is in at most one selected chain or cycle, a paired donor with more
  than one paired patient is in at most one selected chain or cycle, and for every
  altruist either the altruist is selected as idle and none of its chains is, or it is
  not and exactly one of its chains is selected.
\<close>

theorem C1_selections_are_disjoint:
  assumes ret: "solve S (Some crits) self h max_solutions = Some r"
    and S: "sound S"
    and wt: "well_typed self"
    and sel: "(chs, cys, idle) \<in> set (printed (session r))"
  shows "(\<forall>p \<in> set (patients (pool self)).
            length (filter (\<lambda>c. \<exists>pd \<in> set (chain_pd_pairs c). patient pd = p) chs) +
            length (filter (\<lambda>c. \<exists>pd \<in> set (cycle_pd_pairs c). patient pd = p) cys) \<le> 1) \<and>
         (\<forall>d \<in> set (paired_donors (pool self)).
            length (paired_patients (pool self) d) > 1 \<longrightarrow>
            length (filter (\<lambda>c. \<exists>pd \<in> set (chain_pd_pairs c). donor pd = d) chs) +
            length (filter (\<lambda>c. \<exists>pd \<in> set (cycle_pd_pairs c). donor pd = d) cys) \<le> 1) \<and>
         (\<forall>a \<in> set (altruists (pool self)).
            (a \<in> set idle \<and> filter (\<lambda>c. chain_altruist c = a) chs = []) \<or>
            (a \<notin> set idle \<and> length (filter (\<lambda>c. chain_altruist c = a) chs) = 1))"
proof -
  let ?P = "pool self"
  from construction_on_well_typed [OF wt, of h] obtain self' h' m where
    built: "create_vars_and_constraints self Model (patients ?P) (paired_donors ?P)
       (altruists ?P) h = Inr (self', h', m)"
    and self': "self' = number_candidates self"
    and constrs: "constrs m =
       map (\<lambda>p. \<lparr>lhs = quicksum (candidate_vars self' (\<lambda>pd. patient pd = p)),
                  rel = LE, rhs = 1\<rparr>) (patients ?P) @
       map (\<lambda>d. \<lparr>lhs = quicksum (if length (paired_patients ?P d) > 1
                    then candidate_vars self' (\<lambda>pd. donor pd = d) else []),
                  rel = LE, rhs = 1\<rparr>) (paired_donors ?P) @
       map (\<lambda>a. \<lparr>lhs = quicksum (altruist_mip_var h' a #
                    map chain_mip_var (filter (\<lambda>c. chain_altruist c = a) (chains self'))),
                  rel = EQ, rhs = 1\<rparr>) (altruists ?P)"
    by blast
  have P': "pool self' = ?P" by (simp add: self' number_candidates_simps)
  from solve_from_solution [OF ret built S] sel
  obtain m1 where m1: "(chs, cys, idle) = selection self' h' m1" and f: "feasible m (X m1)"
    unfolding from_solution_def by blast
  from m1 have chs: "chs = items_in_optimal_solution m1 chain_mip_var (chains self')"
    and cys: "cys = items_in_optimal_solution m1 cycle_mip_var (cycles self')"
    and idle: "idle = items_in_optimal_solution m1 (altruist_mip_var h') (altruists (pool self'))"
    by (simp_all add: selection_def)
  from f have len: "length (X m1) = length (vars m)" and bin: "list_all binary (X m1)"
    and hold: "\<And>c. c \<in> set (constrs m) \<Longrightarrow> holds (X m1) c"
    by (simp_all add: feasible_def list_all_iff)
  from create_valid_vars [OF built] have vv: "valid_vars self' h' (length (X m1))"
    by (simp add: len)
  have pat: "\<forall>p \<in> set (patients ?P).
      length (filter (\<lambda>c. \<exists>pd \<in> set (chain_pd_pairs c). patient pd = p) chs) +
      length (filter (\<lambda>c. \<exists>pd \<in> set (cycle_pd_pairs c). patient pd = p) cys) \<le> 1"
  proof
    fix p assume "p \<in> set (patients ?P)"
    then have "\<lparr>lhs = quicksum (candidate_vars self' (\<lambda>pd. patient pd = p)), rel = LE, rhs = 1\<rparr>
        \<in> set (constrs m)"
      unfolding constrs by simp
    from hold [OF this] have "eval (X m1) (quicksum (candidate_vars self' (\<lambda>pd. patient pd = p))) \<le> 1"
      by (simp add: holds_def)
    from candidates_at_most_one [OF bin vv this]
    show "length (filter (\<lambda>c. \<exists>pd \<in> set (chain_pd_pairs c). patient pd = p) chs) +
      length (filter (\<lambda>c. \<exists>pd \<in> set (cycle_pd_pairs c). patient pd = p) cys) \<le> 1"
      unfolding chs cys .
  qed
  have don: "\<forall>d \<in> set (paired_donors ?P). length (paired_patients ?P d) > 1 \<longrightarrow>
      length (filter (\<lambda>c. \<exists>pd \<in> set (chain_pd_pairs c). donor pd = d) chs) +
      length (filter (\<lambda>c. \<exists>pd \<in> set (cycle_pd_pairs c). donor pd = d) cys) \<le> 1"
  proof (intro ballI impI)
    fix d assume d: "d \<in> set (paired_donors ?P)" and many: "length (paired_patients ?P d) > 1"
    from d have "\<lparr>lhs = quicksum (if length (paired_patients ?P d) > 1
          then candidate_vars self' (\<lambda>pd. donor pd = d) else []), rel = LE, rhs = 1\<rparr>
        \<in> set (constrs m)"
      unfolding constrs by simp
    from hold [OF this] many
    have "eval (X m1) (quicksum (candidate_vars self' (\<lambda>pd. donor pd = d))) \<le> 1"
      by (simp add: holds_def)
    from candidates_at_most_one [OF bin vv this]
    show "length (filter (\<lambda>c. \<exists>pd \<in> set (chain_pd_pairs c). donor pd = d) chs) +
      length (filter (\<lambda>c. \<exists>pd \<in> set (cycle_pd_pairs c). donor pd = d) cys) \<le> 1"
      unfolding chs cys .
  qed
  have alt: "\<forall>a \<in> set (altruists ?P).
      (a \<in> set idle \<and> filter (\<lambda>c. chain_altruist c = a) chs = []) \<or>
      (a \<notin> set idle \<and> length (filter (\<lambda>c. chain_altruist c = a) chs) = 1)"
  proof
    fix a assume a: "a \<in> set (altruists ?P)"
    then have "\<lparr>lhs = quicksum (altruist_mip_var h' a #
          map chain_mip_var (filter (\<lambda>c. chain_altruist c = a) (chains self'))),
        rel = EQ, rhs = 1\<rparr> \<in> set (constrs m)"
      unfolding constrs by simp
    from hold [OF this] have e: "eval (X m1) (quicksum (altruist_mip_var h' a #
          map chain_mip_var (filter (\<lambda>c. chain_altruist c = a) (chains self')))) = 1"
      by (simp add: holds_def)
    from a have a': "a \<in> set (altruists (pool self'))" by (simp add: P')
    from altruist_exactly_one [OF bin vv a' e]
    show "(a \<in> set idle \<and> filter (\<lambda>c. chain_altruist c = a) chs = []) \<or>
      (a \<notin> set idle \<and> length (filter (\<lambda>c. chain_altruist c = a) chs) = 1)"
      unfolding chs idle .
  qed
  from pat don alt show ?thesis by blast
qed
theorem C1_witness:
  "([chain_D2], [], []) \<in> set (printed (session (the
      (solve exhaustive (Some [most_chains]) optimiser_D fresh_heap 100)))) \<and>
   length (filter (\<lambda>c. \<exists>pd \<in> set (chain_pd_pairs c). patient pd = 3) [chain_D2]) +
   length (filter (\<lambda>c. \<exists>pd \<in> set (cycle_pd_pairs c). patient pd = 3) ([]::cycle list)) \<le> 1 \<and>
   length (filter (\<lambda>c. \<exists>pd \<in> set (chain_pd_pairs c). donor pd = 2) [chain_D2]) +
   length (filter (\<lambda>c. \<exists>pd \<in> set (cycle_pd_pairs c). donor pd = 2) ([]::cycle list)) \<le> 1 \<and>
   (0::nat) \<notin> set [] \<and> length (filter (\<lambda>c. chain_altruist c = 0) [chain_D2]) = 1"
proof -
  let ?r = "the (solve exhaustive (Some [most_chains]) optimiser_D fresh_heap 100)"
  have ret: "solve exhaustive (Some [most_chains]) optimiser_D fresh_heap 100 = Some ?r"
    by (simp add: run_defs pool_D_defs)
  have wt: "well_typed optimiser_D"
    by (simp add: well_typed_def all_pairs_def pool_D_defs)
  have sel: "([chain_D2], [], []) \<in> set (printed (session ?r))"
    by (simp add: run_defs pool_D_defs)
  note d = C1_selections_are_disjoint [OF ret exhaustive_sound wt sel]
  have p: "3 \<in> set (patients (pool optimiser_D))"
    and dn: "2 \<in> set (paired_donors (pool optimiser_D))"
    and many: "length (paired_patients (pool optimiser_D) 2) > 1"
    and a: "0 \<in> set (altruists (pool optimiser_D))"
    by (simp_all add: pool_D_defs)
  note d1 = d [THEN conjunct1] and d2 = d [THEN conjunct2, THEN conjunct1]
    and d3 = d [THEN conjunct2, THEN conjunct2]
  from bspec [OF d1 p]
  have "length (filter (\<lambda>c. \<exists>pd \<in> set (chain_pd_pairs c). patient pd = 3) [chain_D2]) +
      length (filter (\<lambda>c. \<exists>pd \<in> set (cycle_pd_pairs c). patient pd = 3) ([]::cycle list)) \<le> 1" .
  moreover from bspec [OF d2 dn, THEN mp, OF many]
  have "length (filter (\<lambda>c. \<exists>pd \<in> set (chain_pd_pairs c). donor pd = 2) [chain_D2]) +
      length (filter (\<lambda>c. \<exists>pd \<in> set (cycle_pd_pairs c). donor pd = 2) ([]::cycle list)) \<le> 1" .
  moreover from bspec [OF d3 a]
  have "((0::nat) \<in> set [] \<and> filter (\<lambda>c. chain_altruist c = 0) [chain_D2] = []) \<or>
      ((0::nat) \<notin> set [] \<and> length (filter (\<lambda>c. chain_altruist c = 0) [chain_D2]) = 1)" .
  then have "(0::nat) \<notin> set [] \<and> length (filter (\<lambda>c. chain_altruist c = 0) [chain_D2]) = 1"
    by simp
  ultimately show ?thesis using sel by simp
qed

subsection \<open>The enumeration ends\<close>

lemma feasible_subset: "{x. feasible m x} \<subseteq> set (assignments (length (vars m)))"
  by (auto simp: assignments_set feasible_def)

lemma feasible_finite: "finite {x. feasible m x}"
  by (rule finite_subset [OF feasible_subset]) simp

lemma length_assignments: "length (assignments n) = 2 ^ n"
  by (induction n) simp_all

lemma card_feasible: "card {x. feasible m x} \<le> 2 ^ length (vars m)"
proof -
  have "card {x. feasible m x} \<le> card (set (assignments (length (vars m))))"
    by (rule card_mono [OF _ feasible_subset]) simp
  also have "\<dots> \<le> length (assignments (length (vars m)))" by (rule card_length)
  finally show ?thesis by (simp add: length_assignments)
qed

lemma enum_loop_terminates:
  assumes S: "sound S" and vv: "valid_vars self h nv"
  shows "length (vars (model s)) = nv \<Longrightarrow>
     \<exists>r. enum_loop S self h crits mx s n b = Some r \<and>
       length (solves (session r)) \<le>
         length (solves s) + (if crits = [] then 0 else card {x. feasible (model s) x} + 1)"
proof (induction "card {x. feasible (model s) x}" arbitrary: s n b rule: less_induct)
  case less
  show ?case
  proof (cases rule: enum_step_cases [of crits S self h mx s n b])
    case no_criterion
    then show ?thesis by (simp add: enum_loop.simps)
  next
    case (no_emission z st s1 r)
    with optimise_facts(1) [OF no_emission(2)] show ?thesis by (simp add: enum_loop.simps)
  next
    case (last_emission z s1 r)
    with optimise_facts(1) [OF last_emission(2)] show ?thesis by (simp add: enum_loop.simps)
  next
    case (emission z s1)
    let ?sel = "selection self h (model s1)"
    let ?cut = "no_good_cut (optimal_vars h ?sel)"
    let ?s' = "s1\<lparr>printed := printed s1 @ [?sel], model := addConstr ?cut (model s1)\<rparr>"
    note f = optimise_facts [OF emission(2)]
    have same: "\<And>x. feasible (model s1) x = feasible (model s) x"
      by (simp add: feasible_def f(3) f(4))
    have fx: "feasible (model s1) (X (model s1))"
      by (rule optimise_sound(1) [OF emission(2) S])
    from vv less.prems have vv1: "valid_vars self h (length (vars (model s1)))"
      by (simp add: f(3))
    have ones: "\<forall>v \<in> set (optimal_vars h ?sel). X (model s1) ! v = 1"
      using selected_vars_one [OF vv1 fx] by blast
    have out: "\<not> feasible (model ?s') (X (model s1))"
      using cut_excludes [OF ones] by (simp add: feasible_def addConstr_def)
    have "{x. feasible (model ?s') x} \<subset> {x. feasible (model s) x}"
    proof
      show "{x. feasible (model ?s') x} \<subseteq> {x. feasible (model s) x}"
        using same by (auto dest: feasible_addConstr)
      from fx same out show "{x. feasible (model ?s') x} \<noteq> {x. feasible (model s) x}" by auto
    qed
    then have lt: "card {x. feasible (model ?s') x} < card {x. feasible (model s) x}"
      by (rule psubset_card_mono [OF feasible_finite])
    have nv': "length (vars (model ?s')) = nv"
      using less.prems by (simp add: addConstr_def f(3))
    from less.hyps [OF lt nv', of "n + 1" "objVal (model s1)"]
    obtain r where r: "enum_loop S self h crits mx ?s' (n + 1) (objVal (model s1)) = Some r"
      and len: "length (solves (session r)) \<le> length (solves ?s') +
          (if crits = [] then 0 else card {x. feasible (model ?s') x} + 1)"
      by blast
    from r emission(4) have "enum_loop S self h crits mx s n b = Some r"
      by (simp add: enum_loop.simps [of S self h crits mx s n b])
    moreover from len lt emission(1)
    have "length (solves (session r)) \<le> length (solves s) +
        (if crits = [] then 0 else card {x. feasible (model s) x} + 1)"
      by (simp add: f(1))
    ultimately show ?thesis by blast
  qed
qed

lemma lex_ranks_length_le:
  "length (solves (ranks_session (lex_ranks S self h cs s))) \<le> length (solves s) + length cs"
proof (induction cs arbitrary: s)
  case Nil
  show ?case by (simp add: ranks_session_def)
next
  case (Cons c cs)
  obtain z st s1 where o: "optimise S self h c s = (z, st, s1)" by (cases "optimise S self h c s")
  note f = optimise_facts [OF o]
  show ?case
  proof (cases "st = OPTIMAL")
    case True
    with o Cons.IH [of "s1\<lparr>model := enforce_objective (model s1) z (objVal (model s1)) (sense c)\<rparr>"]
    show ?thesis by (simp add: f(1))
  next
    case False
    with o show ?thesis by (simp add: ranks_session_def f(1))
  qed
qed

text \<open>
  With a sound solver \<^verbatim>\<open>solve\<close> returns or raises, it never loops: every cut removes
  the solution just found from the feasible set of the model, which is finite. The
  number of solves is at most the number of criteria plus the number of assignments of 0
  and 1 to the variables.
\<close>

theorem solve_terminates:
  assumes S: "sound S"
  shows "\<exists>r. solve S g self h max_solutions = Some r \<and>
     length (solves (session r)) \<le>
       (case g of None \<Rightarrow> 0 | Some crits \<Rightarrow> length crits) +
       2 ^ (length (chains self) + length (cycles self) + length (altruists (pool self)))"
proof (cases "create_vars_and_constraints self Model (patients (pool self))
       (paired_donors (pool self)) (altruists (pool self)) h")
  case (Inl e)
  then show ?thesis by (simp add: solve_def)
next
  case (Inr b)
  then obtain self' h' m where built: "create_vars_and_constraints self Model (patients (pool self))
       (paired_donors (pool self)) (altruists (pool self)) h = Inr (self', h', m)"
    by (cases b) auto
  from create_char(2) [OF built] have nv: "length (vars m) =
      length (chains self) + length (cycles self) + length (altruists (pool self))"
    by simp
  show ?thesis
  proof (cases g)
    case None
    with built show ?thesis by (simp add: solve_def)
  next
    case (Some crits)
    let ?s0 = "\<lparr>model = m, solves = [], printed = []\<rparr>"
    let ?res = "lex_ranks S self' h' (butlast crits) ?s0"
    note le = lex_ranks_length_le [of S self' h' "butlast crits" ?s0]
    note fr = lex_ranks_frame [of S self' h' "butlast crits" ?s0]
    show ?thesis
    proof (cases ?res)
      case (Inl es)
      then obtain e s where res: "?res = Inl (e, s)" by (cases es) auto
      from le have "length (solves s) \<le> length crits" by (simp add: res ranks_session_def)
      with built Some res show ?thesis by (simp add: solve_def)
    next
      case (Inr s)
      from fr have v: "length (vars (model s)) = length (vars m)"
        by (simp add: Inr ranks_session_def)
      from le have l: "length (solves s) \<le> length crits - 1" by (simp add: Inr ranks_session_def)
      from enum_loop_terminates [OF S create_valid_vars [OF built] v, of crits max_solutions 0 "- 1"]
      obtain r where r: "enum_loop S self' h' crits max_solutions s 0 (- 1) = Some r"
        and len: "length (solves (session r)) \<le> length (solves s) +
          (if crits = [] then 0 else card {x. feasible (model s) x} + 1)"
        by blast
      from card_feasible [of "model s"] have c: "card {x. feasible (model s) x} \<le> 2 ^ length (vars m)"
        by (simp add: v)
      have "length (solves (session r)) \<le> length crits + 2 ^ length (vars m)"
      proof (cases "crits = []")
        case True
        with len l show ?thesis by simp
      next
        case False
        then have "1 \<le> length crits" by (cases crits) auto
        moreover from False len
        have "length (solves (session r)) \<le> length (solves s) + card {x. feasible (model s) x} + 1"
          by simp
        ultimately show ?thesis using l c by linarith
      qed
      with r built Some Inr show ?thesis by (simp add: solve_def nv)
    qed
  qed
qed

theorem solve_terminates_witness:
  "\<exists>r. solve exhaustive (Some [most_chains]) optimiser_D fresh_heap 100 = Some r \<and>
     length (solves (session r)) \<le> 9"
  using solve_terminates [OF exhaustive_sound, of "Some [most_chains]" optimiser_D fresh_heap 100]
  by (simp add: pool_D_defs)

end
